theory Spec2Isabelle
  imports Complex_Main "HOL-Library.Sublist"
begin

section \<open>Python string primitives used by the completer\<close>

text \<open>
  Strings are lists of characters. \<open>str.split(sep)\<close> with an explicit one-character
  separator cuts at every occurrence of the separator and keeps empty pieces, so the
  result is never the empty list; \<open>sep.join(pieces)\<close> is its inverse.
\<close>

fun split_on :: "char \<Rightarrow> string \<Rightarrow> string list" where
  "split_on sep [] = [[]]"
| "split_on sep (c # cs) =
     (if c = sep then [] # split_on sep cs
      else (case split_on sep cs of
              [] \<Rightarrow> [[c]]
            | w # ws \<Rightarrow> (c # w) # ws))"

fun join_with :: "string \<Rightarrow> string list \<Rightarrow> string" where
  "join_with sep [] = []"
| "join_with sep [w] = w"
| "join_with sep (w # v # ws) = w @ sep @ join_with sep (v # ws)"

text \<open>
  A Python slice \<open>xs[:k]\<close>: a negative \<open>k\<close> counts from the end, and the bounds
  are clipped to the list.
\<close>

definition slice_to :: "int \<Rightarrow> 'a list \<Rightarrow> 'a list" where
  "slice_to k xs = (if k < 0 then take (nat (int (length xs) + k)) xs else take (nat k) xs)"

text \<open>The slice \<open>xs[0:-1]\<close>: everything but the last element (empty for the empty list).\<close>

definition drop_last :: "'a list \<Rightarrow> 'a list" where
  "drop_last xs = slice_to (- 1) xs"

text \<open>A Python slice \<open>xs[a:b]\<close>, with the same clipping.\<close>

definition clip_index :: "int \<Rightarrow> nat \<Rightarrow> nat" where
  "clip_index k n = (if k < 0 then nat (int n + k) else min (nat k) n)"

definition py_slice :: "int \<Rightarrow> int \<Rightarrow> 'a list \<Rightarrow> 'a list" where
  "py_slice a b xs =
     (let lo = clip_index a (length xs);
          hi = clip_index b (length xs)
      in take (hi - lo) (drop lo xs))"

definition endswith :: "string \<Rightarrow> string \<Rightarrow> bool" where
  "endswith s what = suffix what s"

definition startswith :: "string \<Rightarrow> string \<Rightarrow> bool" where
  "startswith s what = prefix what s"

text \<open>
  \<open>unicode.rstrip()\<close> removes the trailing characters for which \<open>isspace()\<close>
  holds; \<open>s.rstrip('/')\<close> removes the trailing occurrences of one character.
  Characters are the code points below 256.
\<close>

definition isspace :: "char \<Rightarrow> bool" where
  "isspace c \<longleftrightarrow>
     c \<in> set [CHR 0x09, CHR 0x0A, CHR 0x0B, CHR 0x0C, CHR 0x0D, CHR 0x1C, CHR 0x1D,
              CHR 0x1E, CHR 0x1F, CHR 0x20, CHR 0x85, CHR 0xA0]"

definition rstrip :: "string \<Rightarrow> string" where
  "rstrip s = rev (dropWhile isspace (rev s))"

definition rstrip_char :: "char \<Rightarrow> string \<Rightarrow> string" where
  "rstrip_char ch s = rev (dropWhile (\<lambda>c. c = ch) (rev s))"

text \<open>\<open>s.rfind(c)\<close>: the index of the last occurrence of \<open>c\<close>, or \<open>-1\<close>.\<close>

definition rfind :: "char \<Rightarrow> string \<Rightarrow> int" where
  "rfind c s = int (length (dropWhile (\<lambda>x. x \<noteq> c) (rev s))) - 1"

text \<open>
  \<open>s.replace(old, new)\<close> for a non-empty \<open>old\<close> (the completer replaces
  \<open>', '\<close> and \<open>','\<close> only): the occurrences are replaced from the left, without
  overlap.
\<close>

function replace_all :: "string \<Rightarrow> string \<Rightarrow> string \<Rightarrow> string" where
  "replace_all old new [] = []"
| "replace_all old new (c # cs) =
     (if old \<noteq> [] \<and> prefix old (c # cs)
      then new @ replace_all old new (drop (length old - 1) cs)
      else c # replace_all old new cs)"
  by pat_completeness auto
termination
  by (relation "measure (\<lambda>(old, new, s). length s)") auto

text \<open>
  Iterating over a file opened with \<open>codecs.open(filename, 'r', 'utf-8')\<close> yields the
  decoded text cut after every line boundary, the boundary kept at the end of its line
  (\<open>splitlines(True)\<close> on a unicode string). The boundaries below code point 256 are
  LF, VT, FF, CR, FS, GS, RS and NEL, and CR LF counts as one.
\<close>

definition is_linebreak :: "char \<Rightarrow> bool" where
  "is_linebreak c \<longleftrightarrow>
     c \<in> set [CHR 0x0A, CHR 0x0B, CHR 0x0C, CHR 0x0D, CHR 0x1C, CHR 0x1D, CHR 0x1E, CHR 0x85]"

fun splitlines_keepends :: "string \<Rightarrow> string list" where
  "splitlines_keepends [] = []"
| "splitlines_keepends [c] = [[c]]"
| "splitlines_keepends (c # d # ds) =
     (if c = CHR 0x0D \<and> d = CHR 0x0A then [c, d] # splitlines_keepends ds
      else if is_linebreak c then [c] # splitlines_keepends (d # ds)
      else (case splitlines_keepends (d # ds) of
              [] \<Rightarrow> [[c]]
            | l # ls \<Rightarrow> (c # l) # ls))"

section \<open>Regular expressions as Python's \<open>re\<close> matches them\<close>

text \<open>
  The four patterns of the completer use literals, concatenation, alternation, capture
  groups and a greedy star over a character class. The matcher is the backtracking one
  of \<open>re\<close>: a star takes as many characters as it can and gives them back one at a
  time, the first alternative that leads to a match wins, and \<open>search\<close> returns the
  match at the leftmost start. Without \<open>DOTALL\<close> the dot matches every character
  but the newline. A match is passed on by a continuation \<open>k\<close>, which fails
  (\<open>None\<close>) to make the matcher backtrack.
\<close>

datatype cclass = AnyChar | NoneOf "char list"

fun accepts :: "cclass \<Rightarrow> char \<Rightarrow> bool" where
  "accepts AnyChar c = (c \<noteq> CHR 0x0A)"
| "accepts (NoneOf cs) c = (c \<notin> set cs)"

datatype regex =
    Lit string
  | Star cclass
  | Cat regex regex
  | Alt regex regex
  | Group nat regex

type_synonym groups = "nat \<rightharpoonup> nat \<times> nat"

fun star_match :: "cclass \<Rightarrow> string \<Rightarrow> nat \<Rightarrow> (string \<Rightarrow> nat \<Rightarrow> 'r option) \<Rightarrow> 'r option" where
  "star_match c [] i k = k [] i"
| "star_match c (x # xs) i k =
     (if accepts c x
      then (case star_match c xs (Suc i) k of
              Some r \<Rightarrow> Some r
            | None \<Rightarrow> k (x # xs) i)
      else k (x # xs) i)"

text \<open>
  \<open>rmatch r s i g k\<close> matches \<open>r\<close> at the head of the rest \<open>s\<close> of the subject,
  which starts at index \<open>i\<close>, with the groups \<open>g\<close> closed so far.
\<close>

primrec rmatch :: "regex \<Rightarrow> string \<Rightarrow> nat \<Rightarrow> groups \<Rightarrow> (string \<Rightarrow> nat \<Rightarrow> groups \<Rightarrow> 'r option) \<Rightarrow> 'r option" where
  "rmatch (Lit l) s i g k =
     (if prefix l s then k (drop (length l) s) (i + length l) g else None)"
| "rmatch (Star c) s i g k = star_match c s i (\<lambda>s' i'. k s' i' g)"
| "rmatch (Cat a b) s i g k = rmatch a s i g (\<lambda>s' i' g'. rmatch b s' i' g' k)"
| "rmatch (Alt a b) s i g k =
     (case rmatch a s i g k of
        Some r \<Rightarrow> Some r
      | None \<Rightarrow> rmatch b s i g k)"
| "rmatch (Group n a) s i g k = rmatch a s i g (\<lambda>s' i' g'. k s' i' (g'(n \<mapsto> (i, i'))))"

text \<open>A match object: \<open>start()\<close>, \<open>end()\<close> and the spans of the groups.\<close>

datatype rematch = Match (m_start: nat) (m_end: nat) (m_groups: groups)

fun search_from :: "regex \<Rightarrow> string \<Rightarrow> nat \<Rightarrow> rematch option" where
  "search_from r [] i = rmatch r [] i Map.empty (\<lambda>_ e g. Some (Match i e g))"
| "search_from r (x # xs) i =
     (case rmatch r (x # xs) i Map.empty (\<lambda>_ e g. Some (Match i e g)) of
        Some m \<Rightarrow> Some m
      | None \<Rightarrow> search_from r xs (Suc i))"

definition re_search :: "regex \<Rightarrow> string \<Rightarrow> rematch option" where
  "re_search r s = search_from r s 0"

text \<open>\<open>match.start(n)\<close> is \<open>-1\<close> and \<open>match.group(n)\<close> is empty for a group that
  took no part in the match.\<close>

definition group_start :: "rematch \<Rightarrow> nat \<Rightarrow> int" where
  "group_start m n = (case m_groups m n of None \<Rightarrow> - 1 | Some (a, b) \<Rightarrow> int a)"

definition group_text :: "string \<Rightarrow> rematch \<Rightarrow> nat \<Rightarrow> string" where
  "group_text s m n =
     (case m_groups m n of None \<Rightarrow> [] | Some (a, b) \<Rightarrow> take (b - a) (drop a s))"

text \<open>
  \<open>re.sub(pattern, r"\n", s)\<close>: every match, found from the left and without overlap,
  is replaced by the text of its group \<open>n\<close>; the text between the matches stays. The
  scan goes on behind a match as long as the match has consumed at least one character,
  which every match of the completer's patterns does, each holding a literal.
\<close>

fun re_sub_group :: "regex \<Rightarrow> nat \<Rightarrow> string \<Rightarrow> string" where
  "re_sub_group r n s =
     (case re_search r s of
        None \<Rightarrow> s
      | Some m \<Rightarrow>
          take (m_start m) s @ group_text s m n @
          (if length (drop (m_end m) s) < length s
           then re_sub_group r n (drop (m_end m) s)
           else drop (m_end m) s))"

declare re_sub_group.simps [simp del]

text \<open>
  The patterns. \<open>"cite.*\{"\<close> and \<open>"ref\{|pageref\{"\<close> are compiled in
  \<open>__init__\<close>; the label pattern is \<open>r".*\label{(.*)}.*"\<close>, where the escape
  \<open>\l\<close> of an ASCII letter that is no special sequence stands for the letter itself
  and a brace that opens no repetition count is a literal; the bibliography pattern is
  \<open>r"@(.*){([^,]*).*"\<close>.
\<close>

definition cite_reg :: regex where
  "cite_reg = Cat (Lit ''cite'') (Cat (Star AnyChar) (Lit ''{''))"

definition ref_reg :: regex where
  "ref_reg = Alt (Lit ''ref{'') (Lit ''pageref{'')"

definition label_reg :: regex where
  "label_reg =
     Cat (Star AnyChar) (Cat (Lit ''label{'') (Cat (Group 1 (Star AnyChar))
       (Cat (Lit ''}'') (Star AnyChar))))"

definition bib_reg :: regex where
  "bib_reg =
     Cat (Lit ''@'') (Cat (Group 1 (Star AnyChar)) (Cat (Lit ''{'')
       (Cat (Group 2 (Star (NoneOf '',''))) (Star AnyChar))))"

section \<open>Paths (\<open>posixpath\<close>)\<close>

text \<open>
  \<^verbatim>\<open>
  def join(a, b):
      if b.startswith('/'):   path = b
      elif a == '' or a.endswith('/'):  path = a + b
      else:                   path = a + '/' + b

  def dirname(p):
      i = p.rfind('/') + 1
      head = p[:i]
      if head and head != '/'*len(head):
          head = head.rstrip('/')
      return head

  def normpath(path):
      if path == '': return '.'
      initial_slashes = path.startswith('/')
      if (initial_slashes and
          path.startswith('//') and not path.startswith('///')):
          initial_slashes = 2
      comps = path.split('/')
      new_comps = []
      for comp in comps:
          if comp in ('', '.'):
              continue
          if (comp != '..' or (not initial_slashes and not new_comps) or
               (new_comps and new_comps[-1] == '..')):
              new_comps.append(comp)
          elif new_comps:
              new_comps.pop()
      comps = new_comps
      path = '/'.join(comps)
      if initial_slashes:
          path = '/'*initial_slashes + path
      return path or '.'
  \<close>
\<close>

definition path_join :: "string \<Rightarrow> string \<Rightarrow> string" where
  "path_join a b =
     (if startswith b ''/'' then b
      else if a = [] \<or> endswith a ''/'' then a @ b
      else a @ ''/'' @ b)"

definition dirname :: "string \<Rightarrow> string" where
  "dirname p =
     (let i = rfind (CHR ''/'') p + 1;
          head = slice_to i p
      in if head \<noteq> [] \<and> head \<noteq> replicate (length head) (CHR ''/'')
         then rstrip_char (CHR ''/'') head
         else head)"

definition normpath_step :: "nat \<Rightarrow> string list \<Rightarrow> string \<Rightarrow> string list" where
  "normpath_step initial_slashes new_comps c =
     (if c = [] \<or> c = ''.'' then new_comps
      else if c \<noteq> ''..'' \<or> (initial_slashes = 0 \<and> new_comps = []) \<or>
              (new_comps \<noteq> [] \<and> last new_comps = ''..'')
      then new_comps @ [c]
      else if new_comps \<noteq> [] then butlast new_comps
      else new_comps)"

definition initial_slashes_of :: "string \<Rightarrow> nat" where
  "initial_slashes_of path =
     (if startswith path ''/''
      then (if startswith path ''//'' \<and> \<not> startswith path ''///'' then 2 else 1)
      else 0)"

definition normpath :: "string \<Rightarrow> string" where
  "normpath path =
     (if path = [] then ''.''
      else
        let initial_slashes = initial_slashes_of path;
            comps = split_on (CHR ''/'') path;
            new_comps = foldl (normpath_step initial_slashes) [] comps;
            p = replicate initial_slashes (CHR ''/'') @ join_with ''/'' new_comps
        in if p = [] then ''.'' else p)"

section \<open>Title truncation (\<open>smart_truncate\<close>)\<close>

text \<open>
  \<^verbatim>\<open>
  def smart_truncate(content, length=30, suffix='...'):
      if len(content) <= length:
          return content
      else:
          return ' '.join(content[:length+1-len(suffix)].split(' ')[0:-1]) + suffix
  \<close>
\<close>

definition smart_truncate :: "string \<Rightarrow> int \<Rightarrow> string \<Rightarrow> string" where
  "smart_truncate content len sfx =
     (if int (length content) \<le> len then content
      else join_with '' ''
             (drop_last (split_on (CHR '' '') (slice_to (len + 1 - int (length sfx)) content)))
           @ sfx)"

text \<open>The call \<open>smart_truncate(title)\<close> of \<open>truncate_title\<close> takes both defaults.\<close>

definition truncate_title_text :: "string \<Rightarrow> string" where
  "truncate_title_text title = smart_truncate title 30 ''...''"

section \<open>The environment: file system and bibliography parser\<close>

text \<open>
  The completer reads the file system through \<open>os.listdir\<close>, \<open>os.walk\<close>,
  \<open>os.path.getmtime\<close> and \<open>codecs.open\<close>. A path names nothing, a file, a
  directory with its entries in the order \<open>os.listdir\<close> returns them, or something
  \<open>os.path.isdir\<close> accepts but \<open>os.walk\<close> gets nothing from (a directory that
  cannot be listed, a symbolic link to a directory, which the walk does not follow).
\<close>

datatype fsnode = File | Directory "(string \<times> fsnode) list" | Unlistable

datatype error =
    OSError
  | IOError
  | UnicodeDecodeError
  | KeyError string
  | TypeError
  | AttributeError
  | RuntimeError string

text \<open>
  Reading a file yields the decoded text, or the text of the lines that were yielded
  before an error was raised (none when the file cannot be opened).
\<close>

datatype read_result = ReadOK string | ReadFail string error

text \<open>
  A record of \<open>bibtexparser\<close> is a dictionary from field names to strings, where
  the library's \<open>author\<close> customization has turned the field \<open>author\<close> into a
  list of names.
\<close>

datatype bibval = Str string | Names "string list"

type_synonym bibrecord = "string \<rightharpoonup> bibval"

text \<open>
  \<open>bib_records\<close> gives the records \<open>bibtexparser.load\<close> finds in a file, each
  after the library's \<open>convert_to_unicode\<close> and \<open>author\<close>, the first two steps of
  \<open>bib_customizations\<close>; \<open>nobibparser\<close> is the module's flag of that name.
\<close>

record env =
  fs_node :: "string \<Rightarrow> fsnode option"
  fs_getmtime :: "string \<Rightarrow> real option"
  fs_read :: "string \<Rightarrow> read_result"
  bib_records :: "string \<Rightarrow> bibrecord list option"
  nobibparser :: bool

text \<open>\<open>os.listdir(path)\<close> raises \<open>OSError\<close> (here \<open>None\<close>) unless the path names a
  directory that can be listed.\<close>

definition listdir :: "env \<Rightarrow> string \<Rightarrow> string list option" where
  "listdir E path =
     (case fs_node E path of
        Some (Directory es) \<Rightarrow> Some (map fst es)
      | _ \<Rightarrow> None)"

text \<open>
  \<open>os.walk(top)\<close>, top down: it yields \<open>(top, dirs, nondirs)\<close> and then walks the
  directories of \<open>dirs\<close> in their order; a \<open>top\<close> that cannot be listed yields
  nothing, the error of \<open>listdir\<close> being swallowed.
\<close>

fun walk_node :: "string \<Rightarrow> fsnode \<Rightarrow> (string \<times> string list \<times> string list) list" where
  "walk_node topdir (Directory es) =
     (topdir, map fst (filter (\<lambda>ne. snd ne \<noteq> File) es), map fst (filter (\<lambda>ne. snd ne = File) es))
     # concat (map (\<lambda>ne. walk_node (path_join topdir (fst ne)) (snd ne))
                   (filter (\<lambda>ne. snd ne \<noteq> File) es))"
| "walk_node topdir File = []"
| "walk_node topdir Unlistable = []"

definition os_walk :: "env \<Rightarrow> string \<Rightarrow> (string \<times> string list \<times> string list) list" where
  "os_walk E topdir = (case fs_node E topdir of None \<Rightarrow> [] | Some node \<Rightarrow> walk_node topdir node)"

section \<open>The completer\<close>

text \<open>
  \<open>responses.BuildCompletionData(insertion_text, extra_menu_info)\<close> and
  \<open>responses.BuildGoToResponse(filepath, line_num, column_num)\<close> of the host are kept
  as the data they are given.
\<close>

datatype candidate = CompletionData (insertion_text: string) (extra_menu_info: "string option")

datatype goto_response = GoToResponse (goto_filepath: string) (goto_line_num: int) (goto_column_num: int)

datatype target = TargetNone | TargetCite | TargetLabel | TargetAll

text \<open>
  The fields of \<open>LatexCompleter\<close> (the two compiled patterns are the constants
  \<open>cite_reg\<close> and \<open>ref_reg\<close>), and what was printed to \<open>sys.stderr\<close>.
  \<open>TargetNone\<close>, \<open>TargetCite\<close>, \<open>TargetLabel\<close> and \<open>TargetAll\<close> are the strings
  \<open>'none'\<close>, \<open>'cite'\<close>, \<open>'label'\<close> and \<open>'all'\<close>.
\<close>

record completer =
  completion_target :: target
  main_directory :: "string option"
  files :: "string \<rightharpoonup> real"
  cached_data :: "string \<rightharpoonup> candidate list"
  d_cache_hits :: int
  goto_labels :: "string \<rightharpoonup> string \<times> int \<times> int"
  stderr :: "string list"

record request =
  line_value :: string
  filepath :: string
  query :: string

definition init :: completer where
  "init = \<lparr> completion_target = TargetNone, main_directory = None, files = Map.empty,
            cached_data = Map.empty, d_cache_hits = 0, goto_labels = Map.empty,
            stderr = [] \<rparr>"

subsection \<open>\<open>bib_customizations\<close>\<close>

text \<open>
  \<^verbatim>\<open>
  def truncate_title(record):
      title = record['title'] if 'title' in record else ''
      title = smart_truncate(title)
      record['title'] = title
      return record

  def et_al(record):
      author = record['author'] if 'author' in record else []
      author = [a.replace(', ', ' ').replace(',', ' ') for a in author]
      if len(author) == 0:   record['author'] = ''
      elif len(author) == 1: record['author'] = author[0]
      else:                  record['author'] = author[0] + ' et al.'
      return record
  \<close>
  Iterating over a string yields its characters.
\<close>

definition truncate_title :: "bibrecord \<Rightarrow> bibrecord" where
  "truncate_title record =
     (let title = (case record ''title'' of
                     Some (Str t) \<Rightarrow> t
                   | Some (Names ns) \<Rightarrow> concat ns
                   | None \<Rightarrow> [])
      in record(''title'' \<mapsto> Str (truncate_title_text title)))"

definition et_al :: "bibrecord \<Rightarrow> bibrecord" where
  "et_al record =
     (let author = (case record ''author'' of
                      Some (Names ns) \<Rightarrow> ns
                    | Some (Str s) \<Rightarrow> map (\<lambda>c. [c]) s
                    | None \<Rightarrow> []);
          author' = map (\<lambda>a. replace_all '','' '' '' (replace_all '', '' '' '' a)) author
      in record(''author'' \<mapsto> Str (case author' of
                                      [] \<Rightarrow> []
                                    | [a] \<Rightarrow> a
                                    | a # _ \<Rightarrow> a @ '' et al.'')))"

definition bib_customizations :: "bibrecord \<Rightarrow> bibrecord" where
  "bib_customizations record = truncate_title (et_al record)"

subsection \<open>\<open>_Walk\<close>\<close>

text \<open>
  \<^verbatim>\<open>
  def _Walk( self, path, what ):
      for root, dirs, files in os.walk(path):
          for file in files:
              if file.endswith(what):
                  yield os.path.join(root, file)
  \<close>
\<close>

definition Walk :: "env \<Rightarrow> string \<Rightarrow> string \<Rightarrow> string list" where
  "Walk E path what =
     concat (map (\<lambda>(rootdir, dirs, fs). map (path_join rootdir) (filter (\<lambda>f. endswith f what) fs))
                 (os_walk E path))"

subsection \<open>\<open>_ComputeMainDirectory\<close>\<close>

text \<open>
  \<^verbatim>\<open>
  def FindMain(path, what):
      found = False
      for file in os.listdir(path):
          if file.endswith(what):
              self._main_directory = path
              found = True
              break
      if not found:
          new_path = os.path.dirname(os.path.normpath(path))
          if new_path == path or new_path == "":
              return False
          else:
              return FindMain(new_path, what)
      return True
  \<close>
  The recursion ends because a parent that differs from the path is shorter than it.
\<close>

lemma split_on_nonempty: "split_on sep s \<noteq> []"
  by (induction s) (auto split: list.splits)

lemma split_on_no_sep: "sep \<notin> set s \<Longrightarrow> split_on sep s = [s]"
  by (induction s) auto

lemma split_on_append_sep:
  "split_on sep (a @ sep # b) = split_on sep a @ split_on sep b"
proof (induction a)
  case Nil
  then show ?case by simp
next
  case (Cons c a)
  then show ?case
    using split_on_nonempty [of sep a]
    by (cases "split_on sep a") auto
qed

lemma join_with_snoc:
  "ws \<noteq> [] \<Longrightarrow> join_with sep (ws @ [w]) = join_with sep ws @ sep @ w"
  by (induction sep ws rule: join_with.induct) auto

lemma join_split_on: "join_with [sep] (split_on sep s) = s"
proof (induction s)
  case Nil
  then show ?case by simp
next
  case (Cons c s)
  show ?case
  proof (cases "c = sep")
    case True
    then show ?thesis
      using Cons split_on_nonempty [of sep s]
      by (cases "split_on sep s") auto
  next
    case False
    then show ?thesis
      using Cons split_on_nonempty [of sep s]
      by (cases "split_on sep s"; cases "tl (split_on sep s)") auto
  qed
qed

lemma split_on_pieces: "w \<in> set (split_on sep s) \<Longrightarrow> sep \<notin> set w"
  by (induction s arbitrary: w) (auto split: if_splits list.splits)

lemma length_join_with:
  "ws \<noteq> [] \<Longrightarrow> Suc (length (join_with [sep] ws)) = (\<Sum>w\<leftarrow>ws. Suc (length w))"
  by (induction "[sep]" ws rule: join_with.induct) auto

lemma length_split_on: "(\<Sum>w\<leftarrow>split_on sep s. Suc (length w)) = Suc (length s)"
  using length_join_with [OF split_on_nonempty, of sep sep s] by (simp add: join_split_on)

lemma sum_butlast_le:
  "(\<Sum>w\<leftarrow>butlast ws. Suc (length w)) \<le> (\<Sum>w\<leftarrow>ws. Suc (length (w::string)))"
  by (induction ws) auto

lemma normpath_step_cases:
  "normpath_step k acc c = acc \<or> (normpath_step k acc c = acc @ [c] \<and> c \<noteq> []) \<or>
   normpath_step k acc c = butlast acc"
  unfolding normpath_step_def by (cases "c = []") simp_all

lemma normpath_step_weight:
  "(\<Sum>w\<leftarrow>normpath_step k acc c. Suc (length w)) + (if c = [] then 1 else 0)
     \<le> (\<Sum>w\<leftarrow>acc. Suc (length w)) + Suc (length c)"
proof (cases "c = []")
  case True
  then show ?thesis by (simp add: normpath_step_def)
next
  case False
  then show ?thesis
    using normpath_step_cases [of k acc c] sum_butlast_le [of acc]
    by (elim disjE) auto
qed

lemma normpath_fold_weight:
  "(\<Sum>w\<leftarrow>foldl (normpath_step k) acc cs. Suc (length w)) + length (filter (\<lambda>c. c = []) cs)
     \<le> (\<Sum>w\<leftarrow>acc. Suc (length w)) + (\<Sum>w\<leftarrow>cs. Suc (length w))"
proof (induction cs arbitrary: acc)
  case Nil
  then show ?case by simp
next
  case (Cons c cs)
  show ?case
    using Cons [of "normpath_step k acc c"] normpath_step_weight [of k acc c]
    by (auto split: if_splits)
qed

lemma normpath_step_pieces:
  assumes "\<forall>w\<in>set acc. w \<noteq> [] \<and> CHR ''/'' \<notin> set w" "CHR ''/'' \<notin> set c"
  shows "\<forall>w\<in>set (normpath_step k acc c). w \<noteq> [] \<and> CHR ''/'' \<notin> set w"
proof -
  have "set (butlast acc) \<subseteq> set acc" by (auto dest: in_set_butlastD)
  then show ?thesis
    using normpath_step_cases [of k acc c] assms by (elim disjE) auto
qed

lemma normpath_fold_pieces:
  assumes "\<forall>w\<in>set acc. w \<noteq> [] \<and> CHR ''/'' \<notin> set w" "\<forall>c\<in>set cs. CHR ''/'' \<notin> set c"
  shows "\<forall>w\<in>set (foldl (normpath_step k) acc cs). w \<noteq> [] \<and> CHR ''/'' \<notin> set w"
  using assms
proof (induction cs arbitrary: acc)
  case Nil
  then show ?case by simp
next
  case (Cons c cs)
  have c: "CHR ''/'' \<notin> set c" using Cons.prems(2) by simp
  have cs: "\<forall>c\<in>set cs. CHR ''/'' \<notin> set c" using Cons.prems(2) by simp
  have "\<forall>w\<in>set (normpath_step k acc c). w \<noteq> [] \<and> CHR ''/'' \<notin> set w"
    using Cons.prems(1) c by (rule normpath_step_pieces)
  then have "\<forall>w\<in>set (foldl (normpath_step k) (normpath_step k acc c) cs).
               w \<noteq> [] \<and> CHR ''/'' \<notin> set w"
    using cs by (rule Cons.IH)
  then show ?case by simp
qed

lemma join_with_hd:
  "w \<noteq> [] \<Longrightarrow> hd (join_with sep (w # vs)) = hd w"
  by (cases vs) auto

lemma join_with_all_slashes:
  assumes "\<forall>w\<in>set ws. w \<noteq> [] \<and> CHR ''/'' \<notin> set w"
    and "set (join_with ''/'' ws) \<subseteq> {CHR ''/''}"
  shows "ws = []"
proof (cases ws)
  case Nil
  then show ?thesis .
next
  case (Cons w vs)
  have w: "w \<noteq> []" "CHR ''/'' \<notin> set w" using assms(1) Cons by simp_all
  then have "hd (join_with ''/'' ws) = hd w" unfolding Cons by (intro join_with_hd)
  moreover have "join_with ''/'' ws \<noteq> []" using w(1) unfolding Cons by (cases vs) auto
  ultimately have "hd w \<in> set (join_with ''/'' ws)" by (metis hd_in_set)
  then have "hd w = CHR ''/''" using assms(2) by blast
  moreover have "hd w \<in> set w" using w(1) by simp
  ultimately show ?thesis using w(2) by simp
qed

lemma initial_slashes_prefix: "prefix (replicate (initial_slashes_of p) (CHR ''/'')) p"
  by (auto simp: initial_slashes_of_def startswith_def numeral_2_eq_2)

lemma initial_slashes_empties:
  "initial_slashes_of p \<le> length (filter (\<lambda>c. c = []) (split_on (CHR ''/'') p))"
proof -
  have "initial_slashes_of p = 0 \<or> (\<exists>r. p = CHR ''/'' # r \<and> initial_slashes_of p = 1)
        \<or> (\<exists>r. p = CHR ''/'' # CHR ''/'' # r \<and> initial_slashes_of p = 2)"
    by (auto simp: initial_slashes_of_def startswith_def prefix_def)
  then show ?thesis by auto
qed

lemma normpath_unfold:
  "p \<noteq> [] \<Longrightarrow> normpath p =
     (let q = replicate (initial_slashes_of p) (CHR ''/'') @
              join_with ''/'' (foldl (normpath_step (initial_slashes_of p)) [] (split_on (CHR ''/'') p))
      in if q = [] then ''.'' else q)"
  by (simp add: normpath_def Let_def)

lemma normpath_length:
  assumes "p \<noteq> []"
  shows "length (normpath p) \<le> length p"
proof -
  let ?k = "initial_slashes_of p"
  let ?ws = "foldl (normpath_step ?k) [] (split_on (CHR ''/'') p)"
  let ?q = "replicate ?k (CHR ''/'') @ join_with ''/'' ?ws"
  have w: "(\<Sum>w\<leftarrow>?ws. Suc (length w)) + ?k \<le> Suc (length p)"
    using normpath_fold_weight [of ?k "[]" "split_on (CHR ''/'') p"]
      initial_slashes_empties [of p]
    by (simp add: length_split_on)
  have k: "?k \<le> length p"
    using initial_slashes_prefix [of p] by (metis length_replicate prefix_length_le)
  have lq: "length ?q \<le> length p"
  proof (cases "?ws = []")
    case True
    then show ?thesis using k by simp
  next
    case False
    then have "Suc (length (join_with ''/'' ?ws)) = (\<Sum>w\<leftarrow>?ws. Suc (length w))"
      using length_join_with [of ?ws "CHR ''/''"] by simp
    then show ?thesis using w by simp
  qed
  have "normpath p = (if ?q = [] then ''.'' else ?q)"
    using assms by (simp add: normpath_unfold Let_def)
  moreover have "1 \<le> length p" using assms by (simp add: Suc_le_eq)
  ultimately show ?thesis using lq by (simp split: if_splits)
qed

lemma normpath_all_slashes:
  assumes "normpath p \<noteq> []" "set (normpath p) \<subseteq> {CHR ''/''}"
  shows "prefix (normpath p) p"
proof (cases "p = []")
  case True
  then show ?thesis using assms by (simp add: normpath_def)
next
  case False
  let ?k = "initial_slashes_of p"
  let ?ws = "foldl (normpath_step ?k) [] (split_on (CHR ''/'') p)"
  let ?q = "replicate ?k (CHR ''/'') @ join_with ''/'' ?ws"
  have np: "normpath p = (if ?q = [] then ''.'' else ?q)"
    using False by (simp add: normpath_unfold Let_def)
  have "?q \<noteq> []"
  proof
    assume "?q = []"
    then have "normpath p = ''.''" using np by metis
    then show False using assms(2) by simp
  qed
  then have q: "normpath p = ?q" using np by metis
  have pieces: "\<forall>w\<in>set ?ws. w \<noteq> [] \<and> CHR ''/'' \<notin> set w"
    by (intro normpath_fold_pieces) (auto dest: split_on_pieces)
  have "set (join_with ''/'' ?ws) \<subseteq> {CHR ''/''}" using assms(2) q by auto
  then have "?ws = []" using pieces join_with_all_slashes by blast
  then show ?thesis using q initial_slashes_prefix [of p] by simp
qed

lemma prefix_neq_length: "prefix a b \<Longrightarrow> a \<noteq> b \<Longrightarrow> length a < length b"
  by (auto simp: prefix_def)

lemma rev_dropWhile_rev: "rev (dropWhile P (rev xs)) @ rev (takeWhile P (rev xs)) = xs"
proof -
  have "rev (takeWhile P (rev xs) @ dropWhile P (rev xs)) = xs" by simp
  then show ?thesis by (simp only: rev_append)
qed

lemma rev_dropWhile_rev_prefix: "prefix (rev (dropWhile P (rev xs))) xs"
  using rev_dropWhile_rev [of P xs] by (metis prefixI)

lemma dirname_head: "slice_to (rfind c p + 1) p = rev (dropWhile (\<lambda>x. x \<noteq> c) (rev p))"
proof -
  let ?d = "dropWhile (\<lambda>x. x \<noteq> c) (rev p)"
  have "take (length (rev ?d)) (rev ?d @ rev (takeWhile (\<lambda>x. x \<noteq> c) (rev p))) = rev ?d"
    by simp
  then have "take (length ?d) p = rev ?d"
    by (simp only: rev_dropWhile_rev length_rev)
  then show ?thesis by (simp add: slice_to_def rfind_def)
qed

lemma dirname_unfold:
  "dirname p =
     (let h = rev (dropWhile (\<lambda>x. x \<noteq> CHR ''/'') (rev p))
      in if h \<noteq> [] \<and> h \<noteq> replicate (length h) (CHR ''/'') then rstrip_char (CHR ''/'') h else h)"
  unfolding dirname_def Let_def dirname_head ..

lemma dirname_prefix: "prefix (dirname p) p"
proof -
  let ?h = "rev (dropWhile (\<lambda>x. x \<noteq> CHR ''/'') (rev p))"
  have h: "prefix ?h p" by (rule rev_dropWhile_rev_prefix)
  have "prefix (rstrip_char (CHR ''/'') ?h) ?h"
    unfolding rstrip_char_def by (rule rev_dropWhile_rev_prefix)
  then have "prefix (rstrip_char (CHR ''/'') ?h) p" using h by (rule prefix_order.trans)
  then show ?thesis using h by (simp add: dirname_unfold Let_def)
qed

lemma rstrip_char_shorter:
  assumes "h \<noteq> []" "last h = c"
  shows "length (rstrip_char c h) < length h"
proof -
  obtain ys where ys: "rev h = c # ys"
    using assms by (cases "rev h") (auto simp: last_rev [symmetric] simp del: last_rev)
  have "length (dropWhile (\<lambda>x. x = c) ys) \<le> length ys" by (rule length_dropWhile_le)
  then have "length (dropWhile (\<lambda>x. x = c) (rev h)) < length (rev h)"
    unfolding ys by simp
  then show ?thesis by (simp add: rstrip_char_def)
qed

lemma dirname_head_last:
  assumes "rev (dropWhile (\<lambda>x. x \<noteq> c) (rev p)) \<noteq> []"
  shows "last (rev (dropWhile (\<lambda>x. x \<noteq> c) (rev p))) = c"
proof -
  have "dropWhile (\<lambda>x. x \<noteq> c) (rev p) \<noteq> []" using assms by simp
  then have "\<not> hd (dropWhile (\<lambda>x. x \<noteq> c) (rev p)) \<noteq> c" by (rule hd_dropWhile)
  then show ?thesis using assms by (simp add: last_rev)
qed

lemma dirname_fixed:
  assumes "dirname p = p"
  shows "set p \<subseteq> {CHR ''/''}"
proof -
  let ?h = "rev (dropWhile (\<lambda>x. x \<noteq> CHR ''/'') (rev p))"
  have h: "prefix ?h p" by (rule rev_dropWhile_rev_prefix)
  show ?thesis
  proof (cases "?h \<noteq> [] \<and> ?h \<noteq> replicate (length ?h) (CHR ''/'')")
    case True
    then have d: "dirname p = rstrip_char (CHR ''/'') ?h"
      unfolding dirname_unfold Let_def by simp
    have ne: "?h \<noteq> []" using True by blast
    then have "last ?h = CHR ''/''" by (rule dirname_head_last)
    with ne have "length (rstrip_char (CHR ''/'') ?h) < length ?h"
      by (rule rstrip_char_shorter)
    moreover have "length ?h \<le> length p" using h by (rule prefix_length_le)
    ultimately have "length (dirname p) < length p" using d by simp
    then show ?thesis using assms by simp
  next
    case False
    then have "dirname p = ?h"
      unfolding dirname_unfold Let_def by (simp only: if_False)
    then have "p = ?h" using assms by simp
    then have "p = [] \<or> p = replicate (length p) (CHR ''/'')" using False by auto
    then show ?thesis
    proof
      assume "p = []" then show ?thesis by simp
    next
      assume "p = replicate (length p) (CHR ''/'')"
      then have "set p \<subseteq> set (replicate (length p) (CHR ''/''))" by simp
      then show ?thesis by (auto simp: set_replicate_conv_if split: if_splits)
    qed
  qed
qed

lemma FindMain_measure:
  assumes "dirname (normpath p) \<noteq> p" "dirname (normpath p) \<noteq> []"
  shows "length (dirname (normpath p)) < length p"
proof -
  let ?q = "normpath p"
  have pne: "p \<noteq> []"
  proof
    assume "p = []"
    then have "dirname (normpath p) = []"
      by (simp add: normpath_def dirname_def rfind_def slice_to_def)
    then show False using assms(2) by simp
  qed
  then have le: "length ?q \<le> length p" by (rule normpath_length)
  have pre: "prefix (dirname ?q) ?q" by (rule dirname_prefix)
  show ?thesis
  proof (cases "dirname ?q = ?q")
    case False
    then have "length (dirname ?q) < length ?q"
      using pre by (intro prefix_neq_length)
    then show ?thesis using le by simp
  next
    case True
    then have "set ?q \<subseteq> {CHR ''/''}" by (rule dirname_fixed)
    moreover have "?q \<noteq> []" using assms(2) True by simp
    ultimately have "prefix ?q p" by (rule normpath_all_slashes [rotated])
    moreover have "?q \<noteq> p" using assms(1) True by simp
    ultimately have "length ?q < length p" by (rule prefix_neq_length)
    then show ?thesis using True by simp
  qed
qed

function FindMain :: "env \<Rightarrow> completer \<Rightarrow> string \<Rightarrow> string \<Rightarrow> (error + bool) \<times> completer" where
  "FindMain E st path what =
     (case listdir E path of
        None \<Rightarrow> (Inl OSError, st)
      | Some names \<Rightarrow>
          if list_ex (\<lambda>f. endswith f what) names
          then (Inr True, st\<lparr>main_directory := Some path\<rparr>)
          else
            let new_path = dirname (normpath path)
            in if new_path = path \<or> new_path = []
               then (Inr False, st)
               else FindMain E st new_path what)"
  by pat_completeness auto
termination
  by (relation "measure (\<lambda>(E, st, path, what). length path)")
     (auto intro: FindMain_measure)

declare FindMain.simps [simp del]

text \<open>
  \<^verbatim>\<open>
  filepath = request_data['filepath']
  path     = os.path.dirname(filepath)
  if not FindMain(path, ".bib"):
      self._main_directory = filepath
      print >> sys.stderr, "Unable to set the main directory..."
  else:
      print >> sys.stderr, "Main directory successfully found at %s" % self._main_directory
  \<close>
\<close>

definition ComputeMainDirectory :: "env \<Rightarrow> completer \<Rightarrow> request \<Rightarrow> (error + unit) \<times> completer" where
  "ComputeMainDirectory E st request_data =
     (let path = dirname (filepath request_data)
      in case FindMain E st path ''.bib'' of
           (Inl e, st1) \<Rightarrow> (Inl e, st1)
         | (Inr found, st1) \<Rightarrow>
             if \<not> found
             then (Inr (), st1\<lparr>main_directory := Some (filepath request_data),
                               stderr := stderr st1 @ [''Unable to set the main directory...'']\<rparr>)
             else (Inr (), st1\<lparr>stderr := stderr st1 @
                     [''Main directory successfully found at '' @
                      (case main_directory st1 of Some d \<Rightarrow> d | None \<Rightarrow> ''None'')]\<rparr>))"

subsection \<open>\<open>ShouldUseNowInner\<close>\<close>

text \<open>
  \<^verbatim>\<open>
  if self._main_directory is None:
      self._ComputeMainDirectory(request_data)
  should_use = False
  match = self._cite_reg.search(line_splitted)
  if match is not None:
      self._completion_target = 'cite'
      should_use = True
  match = self._ref_reg.search(line_splitted)
  if match is not None:
      if self._completion_target == 'cite':
          self._completion_target = 'all'
      else:
          self._completion_target = 'label'
      should_use = True
  return should_use
  \<close>
  \<open>classify\<close> is the part behind the root resolution.
\<close>

definition classify :: "completer \<Rightarrow> string \<Rightarrow> bool \<times> completer" where
  "classify st line =
     (let (should_use1, st1) =
            (if re_search cite_reg line \<noteq> None
             then (True, st\<lparr>completion_target := TargetCite\<rparr>)
             else (False, st))
      in if re_search ref_reg line \<noteq> None
         then (True, st1\<lparr>completion_target :=
                        (if completion_target st1 = TargetCite then TargetAll else TargetLabel)\<rparr>)
         else (should_use1, st1))"

definition ShouldUseNowInner :: "env \<Rightarrow> completer \<Rightarrow> request \<Rightarrow> (error + bool) \<times> completer" where
  "ShouldUseNowInner E st request_data =
     (case (if main_directory st = None then ComputeMainDirectory E st request_data
            else (Inr (), st)) of
        (Inl e, st1) \<Rightarrow> (Inl e, st1)
      | (Inr _, st1) \<Rightarrow>
          (let (should_use, st2) = classify st1 (line_value request_data)
           in (Inr should_use, st2)))"

subsection \<open>\<open>_CacheDataAndSkip\<close>\<close>

text \<open>
  \<^verbatim>\<open>
  last_modification = os.path.getmtime(filename)
  if filename not in self._files:
      self._files[filename] = last_modification
      return False, []
  if last_modification <= self._files[filename]:
      self._d_cache_hits += 1
      return True, self._cached_data[filename]
  self._files[filename] = last_modification
  return False, []
  \<close>
  \<open>os.path.getmtime\<close> raises \<open>OSError\<close> for a path it cannot stat, and the lookup
  in \<open>_cached_data\<close> raises \<open>KeyError\<close> for a file that has no entry, the counter
  already incremented.
\<close>

definition CacheDataAndSkip ::
  "env \<Rightarrow> completer \<Rightarrow> string \<Rightarrow> (error + bool \<times> candidate list) \<times> completer" where
  "CacheDataAndSkip E st filename =
     (case fs_getmtime E filename of
        None \<Rightarrow> (Inl OSError, st)
      | Some last_modification \<Rightarrow>
          (case files st filename of
             None \<Rightarrow> (Inr (False, []), st\<lparr>files := (files st)(filename \<mapsto> last_modification)\<rparr>)
           | Some recorded \<Rightarrow>
               if last_modification \<le> recorded
               then (let st1 = st\<lparr>d_cache_hits := d_cache_hits st + 1\<rparr>
                     in case cached_data st1 filename of
                          None \<Rightarrow> (Inl (KeyError filename), st1)
                        | Some cache \<Rightarrow> (Inr (True, cache), st1))
               else (Inr (False, []), st\<lparr>files := (files st)(filename \<mapsto> last_modification)\<rparr>)))"

subsection \<open>The loop over the files of a walk\<close>

text \<open>
  \<open>for filename in self._Walk(self._main_directory, what): body\<close>, where the body
  extends the list \<open>ret\<close> and the completer's fields, and an exception ends the loop
  with the fields as they are.
\<close>

fun for_files ::
  "(string \<Rightarrow> candidate list \<Rightarrow> completer \<Rightarrow> (error + candidate list) \<times> completer) \<Rightarrow>
   string list \<Rightarrow> candidate list \<Rightarrow> completer \<Rightarrow> (error + candidate list) \<times> completer" where
  "for_files body [] ret st = (Inr ret, st)"
| "for_files body (filename # rest) ret st =
     (case body filename ret st of
        (Inl e, st1) \<Rightarrow> (Inl e, st1)
      | (Inr ret1, st1) \<Rightarrow> for_files body rest ret1 st1)"

text \<open>\<open>os.walk(None)\<close> raises \<open>TypeError\<close>.\<close>

definition walk_files ::
  "(string \<Rightarrow> candidate list \<Rightarrow> completer \<Rightarrow> (error + candidate list) \<times> completer) \<Rightarrow>
   env \<Rightarrow> string \<Rightarrow> completer \<Rightarrow> (error + candidate list) \<times> completer" where
  "walk_files body E what st =
     (case main_directory st of
        None \<Rightarrow> (Inl TypeError, st)
      | Some d \<Rightarrow> for_files body (Walk E d what) [] st)"

subsection \<open>\<open>_FindBibEntriesRegex\<close>\<close>

text \<open>
  \<^verbatim>\<open>
  resp = []
  for line in codecs.open(filename, 'r', 'utf-8'):
      line = line.rstrip()
      found = re.search(r"@(.*){([^,]*).*", line)
      if found is not None:
          if found.group(1) != "string":
              resp.append(responses.BuildCompletionData(
                  re.sub(r"@(.*){([^,]*).*", r"\2", line)))
  \<close>
\<close>

fun scan_bib_lines :: "string list \<Rightarrow> candidate list \<Rightarrow> candidate list" where
  "scan_bib_lines [] resp = resp"
| "scan_bib_lines (raw # rest) resp =
     (let line = rstrip raw
      in case re_search bib_reg line of
           None \<Rightarrow> scan_bib_lines rest resp
         | Some found \<Rightarrow>
             if group_text line found 1 \<noteq> ''string''
             then scan_bib_lines rest (resp @ [CompletionData (re_sub_group bib_reg 2 line) None])
             else scan_bib_lines rest resp)"

text \<open>
  \<^verbatim>\<open>
  skip, cache = self._CacheDataAndSkip(filename)
  if skip:
      ret.extend(cache)
      continue
  resp = ...
  ret.extend(resp)
  self._cached_data[filename] = resp
  \<close>
\<close>

definition FindBibEntriesRegex_file ::
  "env \<Rightarrow> string \<Rightarrow> candidate list \<Rightarrow> completer \<Rightarrow> (error + candidate list) \<times> completer" where
  "FindBibEntriesRegex_file E filename ret st =
     (case CacheDataAndSkip E st filename of
        (Inl e, st1) \<Rightarrow> (Inl e, st1)
      | (Inr (skip, cache), st1) \<Rightarrow>
          if skip then (Inr (ret @ cache), st1)
          else
            (case fs_read E filename of
               ReadFail text e \<Rightarrow> (Inl e, st1)
             | ReadOK text \<Rightarrow>
                 (let resp = scan_bib_lines (splitlines_keepends text) []
                  in (Inr (ret @ resp), st1\<lparr>cached_data := (cached_data st1)(filename \<mapsto> resp)\<rparr>))))"

definition FindBibEntriesRegex :: "env \<Rightarrow> completer \<Rightarrow> (error + candidate list) \<times> completer" where
  "FindBibEntriesRegex E st = walk_files (FindBibEntriesRegex_file E) E ''.bib'' st"

subsection \<open>\<open>_FindBibEntriesParser\<close> and \<open>_FindBibEntries\<close>\<close>

text \<open>
  \<^verbatim>\<open>
  for entry in bib_database.entries:
      if 'ID' not in entry:
          continue
      title = entry['title']
      author = entry['author']
      resp.append(responses.BuildCompletionData(
          entry['ID'], "%s (%s)" % (title, author)))
  \<close>
  The entries are the records of the file after \<open>bib_customizations\<close>, which leaves
  a string in \<open>title\<close> and in \<open>author\<close>.
\<close>

definition entry_text :: "bibrecord \<Rightarrow> string \<Rightarrow> string" where
  "entry_text entry field =
     (case entry field of
        Some (Str s) \<Rightarrow> s
      | Some (Names ns) \<Rightarrow> concat ns
      | None \<Rightarrow> [])"

fun scan_bib_entries :: "bibrecord list \<Rightarrow> candidate list \<Rightarrow> candidate list" where
  "scan_bib_entries [] resp = resp"
| "scan_bib_entries (record # rest) resp =
     (let entry = bib_customizations record
      in if entry ''ID'' = None then scan_bib_entries rest resp
         else scan_bib_entries rest
                (resp @ [CompletionData (entry_text entry ''ID'')
                           (Some (entry_text entry ''title'' @ '' ('' @
                                  entry_text entry ''author'' @ '')''))]))"

definition FindBibEntriesParser_file ::
  "env \<Rightarrow> string \<Rightarrow> candidate list \<Rightarrow> completer \<Rightarrow> (error + candidate list) \<times> completer" where
  "FindBibEntriesParser_file E filename ret st =
     (case CacheDataAndSkip E st filename of
        (Inl e, st1) \<Rightarrow> (Inl e, st1)
      | (Inr (skip, cache), st1) \<Rightarrow>
          if skip then (Inr (ret @ cache), st1)
          else
            (case bib_records E filename of
               None \<Rightarrow> (Inl IOError, st1)
             | Some records \<Rightarrow>
                 (let resp = scan_bib_entries records []
                  in (Inr (ret @ resp), st1\<lparr>cached_data := (cached_data st1)(filename \<mapsto> resp)\<rparr>))))"

definition FindBibEntriesParser :: "env \<Rightarrow> completer \<Rightarrow> (error + candidate list) \<times> completer" where
  "FindBibEntriesParser E st = walk_files (FindBibEntriesParser_file E) E ''.bib'' st"

definition FindBibEntries :: "env \<Rightarrow> completer \<Rightarrow> (error + candidate list) \<times> completer" where
  "FindBibEntries E st =
     (if nobibparser E then FindBibEntriesRegex E st else FindBibEntriesParser E st)"

subsection \<open>\<open>_FindLabels\<close>\<close>

text \<open>
  \<^verbatim>\<open>
  resp = []
  for i, line in enumerate(codecs.open(filename, 'r', 'utf-8')):
      line = line.rstrip()
      match = re.search(r".*\label{(.*)}.*", line)
      if match is not None:
          lid = re.sub(r".*\label{(.*)}.*", r"\1", line)
          self._goto_labels[lid] = (filename, i+1, match.start(1))
          resp.append( responses.BuildCompletionData(lid) )
  self._cached_data[filename] = resp
  ret.extend(resp)
  \<close>
  \<open>scan_label_line\<close> is the body of the loop over the lines, on the list \<open>resp\<close> and
  the dictionary \<open>_goto_labels\<close>.
\<close>

definition scan_label_line ::
  "string \<Rightarrow> nat \<Rightarrow> string \<Rightarrow> candidate list \<times> (string \<rightharpoonup> string \<times> int \<times> int) \<Rightarrow>
   candidate list \<times> (string \<rightharpoonup> string \<times> int \<times> int)" where
  "scan_label_line filename i raw acc =
     (let line = rstrip raw
      in case re_search label_reg line of
           None \<Rightarrow> acc
         | Some m \<Rightarrow>
             (let lid = re_sub_group label_reg 1 line
              in (fst acc @ [CompletionData lid None],
                  (snd acc)(lid \<mapsto> (filename, int i + 1, group_start m 1)))))"

fun scan_label_lines ::
  "string \<Rightarrow> nat \<Rightarrow> string list \<Rightarrow> candidate list \<times> (string \<rightharpoonup> string \<times> int \<times> int) \<Rightarrow>
   candidate list \<times> (string \<rightharpoonup> string \<times> int \<times> int)" where
  "scan_label_lines filename i [] acc = acc"
| "scan_label_lines filename i (raw # rest) acc =
     scan_label_lines filename (Suc i) rest (scan_label_line filename i raw acc)"

definition FindLabels_file ::
  "env \<Rightarrow> string \<Rightarrow> candidate list \<Rightarrow> completer \<Rightarrow> (error + candidate list) \<times> completer" where
  "FindLabels_file E filename ret st =
     (case CacheDataAndSkip E st filename of
        (Inl e, st1) \<Rightarrow> (Inl e, st1)
      | (Inr (skip, cache), st1) \<Rightarrow>
          if skip then (Inr (ret @ cache), st1)
          else
            (case fs_read E filename of
               ReadFail text e \<Rightarrow>
                 (let (resp, labels) =
                        scan_label_lines filename 0 (splitlines_keepends text) ([], goto_labels st1)
                  in (Inl e, st1\<lparr>goto_labels := labels\<rparr>))
             | ReadOK text \<Rightarrow>
                 (let (resp, labels) =
                        scan_label_lines filename 0 (splitlines_keepends text) ([], goto_labels st1)
                  in (Inr (ret @ resp),
                      st1\<lparr>goto_labels := labels,
                          cached_data := (cached_data st1)(filename \<mapsto> resp)\<rparr>))))"

definition FindLabels :: "env \<Rightarrow> completer \<Rightarrow> (error + candidate list) \<times> completer" where
  "FindLabels E st = walk_files (FindLabels_file E) E ''.tex'' st"

subsection \<open>\<open>_GoToDefinition\<close>\<close>

text \<open>
  \<^verbatim>\<open>
  def find_end_of_command(line, match):
      if match is None:
          return -1
      for i in range(match.start(), len(line)):
          e = line[i]
          if e == "}":
              return i
      return -1

  match = self._ref_reg.search(line)
  end_of_command = find_end_of_command(line, match)
  if end_of_command == -1:
      raise RuntimeError( 'Can\'t jump to definition or declaration: not implemented yet' )
  else:
      ref = line[match.end():end_of_command]
      if ref not in self._goto_labels:
          raise RuntimeError( 'Can\'t jump to definition or declaration: not implemented yet' )
      filename, line, col = self._goto_labels[ref]
      return responses.BuildGoToResponse( filename, line, col )
  \<close>
\<close>

function scan_for_brace :: "string \<Rightarrow> nat \<Rightarrow> int" where
  "scan_for_brace line i =
     (if i < length line
      then (if line ! i = CHR ''}'' then int i else scan_for_brace line (Suc i))
      else - 1)"
  by pat_completeness auto
termination
  by (relation "measure (\<lambda>(line, i). length line - i)") auto

declare scan_for_brace.simps [simp del]

definition find_end_of_command :: "string \<Rightarrow> rematch option \<Rightarrow> int" where
  "find_end_of_command line match =
     (case match of
        None \<Rightarrow> - 1
      | Some m \<Rightarrow> scan_for_brace line (m_start m))"

definition NavigationNotFound :: error where
  "NavigationNotFound =
     RuntimeError (''Can'' @ [CHR 0x27] @ ''t jump to definition or declaration: not implemented yet'')"

definition GoToDefinition :: "completer \<Rightarrow> request \<Rightarrow> error + goto_response" where
  "GoToDefinition st request_data =
     (let line = line_value request_data;
          match = re_search ref_reg line;
          end_of_command = find_end_of_command line match
      in if end_of_command = - 1 then Inl NavigationNotFound
         else
           (case match of
              None \<Rightarrow> Inl AttributeError
            | Some m \<Rightarrow>
                (let ref = py_slice (int (m_end m)) end_of_command line
                 in case goto_labels st ref of
                      None \<Rightarrow> Inl NavigationNotFound
                    | Some (filename, lnum, col) \<Rightarrow> Inr (GoToResponse filename lnum col))))"

subsection \<open>\<open>ComputeCandidatesInner\<close>\<close>

text \<open>
  \<^verbatim>\<open>
  candidates = []
  if self._main_directory is None:
      self._ComputeMainDirectory(request_data)
  if self._completion_target == 'cite':
      candidates = self._FindBibEntries()
  elif self._completion_target == 'label':
      candidates = self._FindLabels()
  elif self._completion_target == 'all':
      candidates = self._FindLabels() + self._FindBibEntries()
  print >> sys.stderr, request_data['query']
  return candidates
  \<close>
\<close>

definition find_candidates :: "env \<Rightarrow> completer \<Rightarrow> (error + candidate list) \<times> completer" where
  "find_candidates E st =
     (case completion_target st of
        TargetCite \<Rightarrow> FindBibEntries E st
      | TargetLabel \<Rightarrow> FindLabels E st
      | TargetAll \<Rightarrow>
          (case FindLabels E st of
             (Inl e, st1) \<Rightarrow> (Inl e, st1)
           | (Inr labels, st1) \<Rightarrow>
               (case FindBibEntries E st1 of
                  (Inl e, st2) \<Rightarrow> (Inl e, st2)
                | (Inr bibs, st2) \<Rightarrow> (Inr (labels @ bibs), st2)))
      | TargetNone \<Rightarrow> (Inr [], st))"

definition ComputeCandidatesInner ::
  "env \<Rightarrow> completer \<Rightarrow> request \<Rightarrow> (error + candidate list) \<times> completer" where
  "ComputeCandidatesInner E st request_data =
     (case (if main_directory st = None then ComputeMainDirectory E st request_data
            else (Inr (), st)) of
        (Inl e, st1) \<Rightarrow> (Inl e, st1)
      | (Inr _, st1) \<Rightarrow>
          (case find_candidates E st1 of
             (Inl e, st2) \<Rightarrow> (Inl e, st2)
           | (Inr candidates, st2) \<Rightarrow>
               (Inr candidates, st2\<lparr>stderr := stderr st2 @ [query request_data]\<rparr>)))"

section \<open>Notions used in the statements\<close>

text \<open>
  \<open>label_at line lid col\<close>: in \<open>line\<close> the identifier \<open>lid\<close> stands between
  \<open>label{\<close> and a closing brace, and its first character has the 0-based index
  \<open>col\<close>.
\<close>

definition label_at :: "string \<Rightarrow> string \<Rightarrow> nat \<Rightarrow> bool" where
  "label_at line lid col \<longleftrightarrow>
     (\<exists>pre post. line = pre @ ''label{'' @ lid @ ''}'' @ post \<and> col = length pre + 6)"



text \<open>
  A declarative reading of a pattern, for the proofs about the matcher:
  \<open>rx_word r w i g g'\<close> holds when \<open>r\<close> can consume the word \<open>w\<close> at index
  \<open>i\<close>, turning the groups \<open>g\<close> into \<open>g'\<close>.
\<close>

primrec rx_word :: "regex \<Rightarrow> string \<Rightarrow> nat \<Rightarrow> groups \<Rightarrow> groups \<Rightarrow> bool" where
  "rx_word (Lit l) w i g g' = (w = l \<and> g' = g)"
| "rx_word (Star c) w i g g' = (list_all (accepts c) w \<and> g' = g)"
| "rx_word (Cat a b) w i g g' =
     (\<exists>w1 w2 g1. w = w1 @ w2 \<and> rx_word a w1 i g g1 \<and> rx_word b w2 (i + length w1) g1 g')"
| "rx_word (Alt a b) w i g g' = (rx_word a w i g g' \<or> rx_word b w i g g')"
| "rx_word (Group n a) w i g g' = (\<exists>g1. rx_word a w i g g1 \<and> g' = g1(n \<mapsto> (i, i + length w)))"

text \<open>The label pattern without its last \<open>.*\<close>.\<close>

definition label_head :: regex where
  "label_head = Cat (Star AnyChar) (Cat (Lit ''label{'') (Cat (Group 1 (Star AnyChar)) (Lit ''}'')))"

text \<open>What the scan of the first \<open>j\<close> lines has emitted points into these lines.\<close>

definition emitted_ok :: "string \<Rightarrow> string list \<Rightarrow> nat \<Rightarrow> candidate list \<times> (string \<rightharpoonup> string \<times> int \<times> int) \<Rightarrow> bool" where
  "emitted_ok filename lines j acc \<longleftrightarrow>
     (\<forall>c\<in>set (fst acc). \<exists>k col. k < j \<and> c = CompletionData (insertion_text c) None \<and>
         label_at (rstrip (lines ! k)) (insertion_text c) col \<and>
         snd acc (insertion_text c) = Some (filename, int k + 1, int col))"

section \<open>Example projects\<close>

text \<open>
  A project \<open>/p\<close> with two documents that define the same label and a
  bibliography, the same project after an edit, and a document \<open>/a/doc.tex\<close> with
  no bibliography file in any directory above it.
\<close>

definition text_a :: string where
  "text_a = (CHR 0x5C # ''label{old}'') @ [CHR 0x0A] @ ''text'' @ [CHR 0x0A] @ (CHR 0x5C # ''label{fig1}'') @ [CHR 0x0D, CHR 0x0A]"

definition text_b :: string where
  "text_b = ''a'' @ [CHR 0x0A] @ ''b'' @ [CHR 0x0A] @ ''c'' @ [CHR 0x0A] @ ''d'' @ [CHR 0x0A] @
            ''e'' @ [CHR 0x0A] @ ''f'' @ [CHR 0x0A] @ (''  '' @ CHR 0x5C # ''label{fig1}  '') @ [CHR 0x0A]"

definition two_files :: env where
  "two_files = \<lparr>
     fs_node = (\<lambda>p. if p = ''/p'' then Some (Directory [(''a.tex'', File), (''b.tex'', File), (''refs.bib'', File)])
                    else if p = ''/p/a.tex'' \<or> p = ''/p/b.tex'' \<or> p = ''/p/refs.bib'' then Some File
                    else None),
     fs_getmtime = (\<lambda>p. if p = ''/p/a.tex'' \<or> p = ''/p/b.tex'' \<or> p = ''/p/refs.bib'' then Some 10 else None),
     fs_read = (\<lambda>p. if p = ''/p/a.tex'' then ReadOK text_a
                    else if p = ''/p/b.tex'' then ReadOK text_b
                    else if p = ''/p/refs.bib'' then ReadOK (''@article{key1,'' @ [CHR 0x0A])
                    else ReadFail [] IOError),
     bib_records = (\<lambda>p. None),
     nobibparser = True \<rparr>"

text \<open>
  The same tree after \<open>a.tex\<close> was rewritten, with one new label in place of its
  two, and after \<open>refs.bib\<close> was touched and can no longer be decoded.
\<close>

definition two_files_edited :: env where
  "two_files_edited = two_files\<lparr>
     fs_getmtime := (\<lambda>p. if p = ''/p/a.tex'' \<or> p = ''/p/refs.bib'' then Some 11 else fs_getmtime two_files p),
     fs_read := (\<lambda>p. if p = ''/p/a.tex'' then ReadOK ((CHR 0x5C # ''label{other}'') @ [CHR 0x0A])
                     else if p = ''/p/refs.bib'' then ReadFail [] UnicodeDecodeError
                     else fs_read two_files p)\<rparr>"

definition rooted :: completer where
  "rooted = init\<lparr>main_directory := Some ''/p''\<rparr>"

definition scanned :: completer where
  "scanned = snd (FindBibEntries two_files (snd (FindLabels two_files rooted)))"

definition no_bib :: env where
  "no_bib = \<lparr>
     fs_node = (\<lambda>p. if p = ''/'' then Some (Directory [(''a'', Directory [(''doc.tex'', File), (''other.tex'', File)])])
                    else if p = ''/a'' then Some (Directory [(''doc.tex'', File), (''other.tex'', File)])
                    else if p = ''/a/doc.tex'' \<or> p = ''/a/other.tex'' then Some File
                    else None),
     fs_getmtime = (\<lambda>p. if p = ''/a/doc.tex'' \<or> p = ''/a/other.tex'' then Some 1 else None),
     fs_read = (\<lambda>p. if p = ''/a/doc.tex'' then ReadOK ((CHR 0x5C # ''label{x}'') @ [CHR 0x0A])
                    else if p = ''/a/other.tex'' then ReadOK ((CHR 0x5C # ''label{y}'') @ [CHR 0x0A])
                    else ReadFail [] IOError),
     bib_records = (\<lambda>p. None),
     nobibparser = True \<rparr>"

definition ref_request :: request where
  "ref_request = \<lparr>line_value = (''see '' @ CHR 0x5C # ''ref{''), filepath = ''/a/doc.tex'', query = []\<rparr>"

definition cite_request :: request where
  "cite_request = \<lparr>line_value = (''see '' @ CHR 0x5C # ''cite{''), filepath = ''/a/doc.tex'', query = []\<rparr>"

definition unlistable :: env where
  "unlistable = no_bib\<lparr>fs_node := (\<lambda>p. if p = ''/a'' then Some Unlistable else fs_node no_bib p)\<rparr>"

definition rooted_idle :: completer where
  "rooted_idle = init\<lparr>main_directory := Some ''/a''\<rparr>"

definition demo_labels :: completer where
  "demo_labels = init\<lparr>goto_labels := [''fig1'' \<mapsto> (''fileX'', 7, 4)]\<rparr>"

definition demo_req_known :: request where
  "demo_req_known = \<lparr>line_value = (''See '' @ CHR 0x5C # ''ref{fig1} for details''), filepath = ''/p/doc.tex'', query = []\<rparr>"

definition demo_req_unknown :: request where
  "demo_req_unknown = \<lparr>line_value = (''See '' @ CHR 0x5C # ''ref{unknown}''), filepath = ''/p/doc.tex'', query = []\<rparr>"


section \<open>Title truncation: properties\<close>

lemma drop_last_butlast: "drop_last xs = butlast xs"
  by (simp add: drop_last_def slice_to_def butlast_conv_take nat_diff_distrib')

lemma last_sep_split:
  assumes "sep \<in> set s"
  shows "\<exists>a b. s = a @ sep # b \<and> sep \<notin> set b"
  using assms by (metis split_list_last)

lemma drop_last_split_no_sep:
  "sep \<notin> set s \<Longrightarrow> join_with [sep] (drop_last (split_on sep s)) = []"
  by (simp add: split_on_no_sep drop_last_butlast)

lemma drop_last_split_sep:
  assumes "sep \<notin> set b"
  shows "join_with [sep] (drop_last (split_on sep (a @ sep # b))) = a"
proof -
  have "split_on sep (a @ sep # b) = split_on sep a @ [b]"
    using assms by (simp add: split_on_append_sep split_on_no_sep)
  then show ?thesis
    by (simp add: drop_last_butlast join_split_on)
qed

text \<open>
  Claim C8. The truncation of a title for the display detail returns a title of at most
  30 characters unchanged. A longer title becomes a retained prefix followed by the
  marker \<open>...\<close>; the result is never longer than 30 characters; and the retained
  prefix ends at a word boundary: either the title goes on with a space right behind
  it (and with no further space up to index 27, so that no later boundary was in
  reach), or the first 28 characters of the title hold no space at all and nothing is
  retained.
\<close>

theorem smart_truncate_title:
  "(length title \<le> 30 \<longrightarrow> truncate_title_text title = title) \<and>
   (30 < length title \<longrightarrow>
      (\<exists>r. truncate_title_text title = r @ ''...'' \<and>
           length (truncate_title_text title) \<le> 30 \<and>
           ((r = [] \<and> CHR '' '' \<notin> set (take 28 title)) \<or>
            (\<exists>rest. title = r @ CHR '' '' # rest \<and>
                    CHR '' '' \<notin> set (take (27 - length r) rest)))))"
proof (intro conjI impI)
  assume "length title \<le> 30"
  then show "truncate_title_text title = title"
    by (simp add: truncate_title_text_def smart_truncate_def)
next
  assume long: "30 < length title"
  let ?p = "take 28 title"
  have res: "truncate_title_text title =
      join_with '' '' (drop_last (split_on (CHR '' '') ?p)) @ ''...''"
    using long by (simp add: truncate_title_text_def smart_truncate_def slice_to_def)
  show "\<exists>r. truncate_title_text title = r @ ''...'' \<and>
           length (truncate_title_text title) \<le> 30 \<and>
           ((r = [] \<and> CHR '' '' \<notin> set (take 28 title)) \<or>
            (\<exists>rest. title = r @ CHR '' '' # rest \<and>
                    CHR '' '' \<notin> set (take (27 - length r) rest)))"
  proof (cases "CHR '' '' \<in> set ?p")
    case False
    then have "truncate_title_text title = [] @ ''...''"
      using res by (simp add: drop_last_split_no_sep)
    then show ?thesis using False by auto
  next
    case True
    then obtain a b where ab: "?p = a @ CHR '' '' # b" "CHR '' '' \<notin> set b"
      using last_sep_split by metis
    have r: "truncate_title_text title = a @ ''...''"
      using res ab by (simp add: drop_last_split_sep)
    have lp: "length ?p = 28" using long by simp
    then have la: "length a + length b = 27" using ab(1) by simp
    have t: "title = a @ CHR '' '' # (b @ drop 28 title)"
      using ab(1) by (metis append_take_drop_id append.assoc append_Cons)
    have "take (27 - length a) (b @ drop 28 title) = b" using la by simp
    then have "CHR '' '' \<notin> set (take (27 - length a) (b @ drop 28 title))"
      using ab(2) by simp
    then show ?thesis using r t la by auto
  qed
qed

theorem smart_truncate_title_witness:
  "length ''Short title'' \<le> 30 \<and> truncate_title_text ''Short title'' = ''Short title'' \<and>
   30 < length ''A Very Long Title About Something'' \<and>
   (\<exists>r. truncate_title_text ''A Very Long Title About Something'' = r @ ''...'' \<and>
        length (truncate_title_text ''A Very Long Title About Something'') \<le> 30 \<and>
        ((r = [] \<and> CHR '' '' \<notin> set (take 28 ''A Very Long Title About Something'')) \<or>
         (\<exists>rest. ''A Very Long Title About Something'' = r @ CHR '' '' # rest \<and>
           CHR '' '' \<notin> set (take (27 - length r) rest))))"
  using smart_truncate_title [of "''Short title''"]
        smart_truncate_title [of "''A Very Long Title About Something''"]
  by simp

section \<open>The matcher: soundness, completeness, leftmost match\<close>

lemma star_match_sound:
  "star_match c s i k = Some res \<Longrightarrow>
   \<exists>w s'. s = w @ s' \<and> list_all (accepts c) w \<and> k s' (i + length w) = Some res"
proof (induction s arbitrary: i)
  case Nil
  then show ?case by simp
next
  case (Cons x xs)
  show ?case
  proof (cases "accepts c x \<and> star_match c xs (Suc i) k \<noteq> None")
    case True
    then have "star_match c xs (Suc i) k = Some res" using Cons.prems by auto
    then obtain w s' where "xs = w @ s'" "list_all (accepts c) w" "k s' (Suc i + length w) = Some res"
      using Cons.IH by blast
    then have "x # xs = (x # w) @ s' \<and> list_all (accepts c) (x # w) \<and> k s' (i + length (x # w)) = Some res"
      using True by simp
    then show ?thesis by blast
  next
    case False
    then have "k (x # xs) i = Some res" using Cons.prems by (auto split: if_splits option.splits)
    then have "x # xs = [] @ (x # xs) \<and> list_all (accepts c) [] \<and> k (x # xs) (i + length ([]::string)) = Some res"
      by simp
    then show ?thesis by blast
  qed
qed

lemma star_match_complete:
  "list_all (accepts c) w \<Longrightarrow> k s' (i + length w) \<noteq> None \<Longrightarrow> star_match c (w @ s') i k \<noteq> None"
proof (induction w arbitrary: i)
  case Nil
  then show ?case by (cases s') (auto split: option.splits)
next
  case (Cons x w)
  then have "star_match c (w @ s') (Suc i) k \<noteq> None" by simp
  then show ?case using Cons.prems(1) by (auto split: option.splits)
qed

lemma star_match_all:
  "list_all (accepts c) s \<Longrightarrow> k [] (i + length s) \<noteq> None \<Longrightarrow> star_match c s i k = k [] (i + length s)"
proof (induction s arbitrary: i)
  case Nil
  then show ?case by simp
next
  case (Cons x xs)
  then have "star_match c xs (Suc i) k = k [] (Suc i + length xs)" by simp
  then show ?case using Cons.prems by (auto split: option.splits)
qed

lemma rmatch_sound:
  "rmatch r s i g k = Some res \<Longrightarrow>
   \<exists>w s' g'. s = w @ s' \<and> rx_word r w i g g' \<and> k s' (i + length w) g' = Some res"
proof (induction r arbitrary: s i g k)
  case (Lit l)
  then have "prefix l s" "k (drop (length l) s) (i + length l) g = Some res"
    by (auto split: if_splits)
  then have "s = l @ drop (length l) s \<and> rx_word (Lit l) l i g g \<and>
       k (drop (length l) s) (i + length l) g = Some res"
    by (auto simp: prefix_def)
  then show ?case by blast
next
  case (Star c)
  then obtain w s' where "s = w @ s'" "list_all (accepts c) w" "k s' (i + length w) g = Some res"
    using star_match_sound [of c s i "\<lambda>s' i'. k s' i' g" res] by auto
  then have "s = w @ s' \<and> rx_word (Star c) w i g g \<and> k s' (i + length w) g = Some res" by simp
  then show ?case by blast
next
  case (Cat a b)
  from Cat.prems obtain w1 s1 g1 where 1: "s = w1 @ s1" "rx_word a w1 i g g1"
      "rmatch b s1 (i + length w1) g1 k = Some res"
    using Cat.IH(1) [of s i g "\<lambda>s' i' g'. rmatch b s' i' g' k"] by auto
  then obtain w2 s2 g2 where 2: "s1 = w2 @ s2" "rx_word b w2 (i + length w1) g1 g2"
      "k s2 (i + length w1 + length w2) g2 = Some res"
    using Cat.IH(2) by blast
  have "s = (w1 @ w2) @ s2 \<and> rx_word (Cat a b) (w1 @ w2) i g g2 \<and>
        k s2 (i + length (w1 @ w2)) g2 = Some res"
    using 1 2 by (auto simp: add.assoc)
  then show ?case by blast
next
  case (Alt a b)
  then have "rmatch a s i g k = Some res \<or> rmatch b s i g k = Some res"
    by (auto split: option.splits)
  then show ?case
  proof
    assume "rmatch a s i g k = Some res"
    then obtain w s' g' where "s = w @ s'" "rx_word a w i g g'" "k s' (i + length w) g' = Some res"
      using Alt.IH(1) by blast
    then have "s = w @ s' \<and> rx_word (Alt a b) w i g g' \<and> k s' (i + length w) g' = Some res"
      by simp
    then show ?thesis by blast
  next
    assume "rmatch b s i g k = Some res"
    then obtain w s' g' where "s = w @ s'" "rx_word b w i g g'" "k s' (i + length w) g' = Some res"
      using Alt.IH(2) by blast
    then have "s = w @ s' \<and> rx_word (Alt a b) w i g g' \<and> k s' (i + length w) g' = Some res"
      by simp
    then show ?thesis by blast
  qed
next
  case (Group n a)
  then obtain w s' g1 where "s = w @ s'" "rx_word a w i g g1"
      "k s' (i + length w) (g1(n \<mapsto> (i, i + length w))) = Some res"
    using Group.IH [of s i g "\<lambda>s' i' g'. k s' i' (g'(n \<mapsto> (i, i')))"] by auto
  then have "s = w @ s' \<and> rx_word (Group n a) w i g (g1(n \<mapsto> (i, i + length w))) \<and>
     k s' (i + length w) (g1(n \<mapsto> (i, i + length w))) = Some res" by auto
  then show ?case by blast
qed

lemma rmatch_complete:
  "rx_word r w i g g' \<Longrightarrow> k s' (i + length w) g' \<noteq> None \<Longrightarrow> rmatch r (w @ s') i g k \<noteq> None"
proof (induction r arbitrary: w i g g' k s')
  case (Lit l)
  then show ?case by simp
next
  case (Star c)
  then show ?case using star_match_complete [of c w "\<lambda>s' i'. k s' i' g" s' i] by simp
next
  case (Cat a b)
  then obtain w1 w2 g1 where w: "w = w1 @ w2" "rx_word a w1 i g g1" "rx_word b w2 (i + length w1) g1 g'"
    by auto
  have "rmatch b (w2 @ s') (i + length w1) g1 k \<noteq> None"
    using Cat.IH(2) [OF w(3)] Cat.prems(2) w(1) by (simp add: add.assoc)
  then have "rmatch a (w1 @ (w2 @ s')) i g (\<lambda>s' i' g'. rmatch b s' i' g' k) \<noteq> None"
    using Cat.IH(1) [OF w(2)] by simp
  then show ?case using w(1) by simp
next
  case (Alt a b)
  show ?case
  proof (cases "rmatch a (w @ s') i g k")
    case (Some y)
    then show ?thesis by simp
  next
    case None
    then have "\<not> rx_word a w i g g'" using Alt.IH(1) Alt.prems(2) by blast
    then have "rx_word b w i g g'" using Alt.prems(1) by simp
    then have "rmatch b (w @ s') i g k \<noteq> None" using Alt.IH(2) Alt.prems(2) by blast
    then show ?thesis using None by simp
  qed
next
  case (Group n a)
  then obtain g1 where g1: "rx_word a w i g g1" "g' = g1(n \<mapsto> (i, i + length w))" by auto
  let ?k = "\<lambda>s' i' g'. k s' i' (g'(n \<mapsto> (i, i')))"
  have "?k s' (i + length w) g1 \<noteq> None" using Group.prems(2) g1(2) by blast
  then have "rmatch a (w @ s') i g ?k \<noteq> None" by (rule Group.IH [OF g1(1)])
  then show ?case unfolding rmatch.simps .
qed

text \<open>Search: the match starts at the leftmost position where the pattern matches.\<close>

lemma search_from_Some:
  "search_from r s i = Some m \<Longrightarrow>
   \<exists>j \<le> length s. rmatch r (drop j s) (i + j) Map.empty (\<lambda>_ e g. Some (Match (i + j) e g)) = Some m \<and>
      (\<forall>j' < j. rmatch r (drop j' s) (i + j') Map.empty (\<lambda>_ e g. Some (Match (i + j') e g)) = None)"
proof (induction s arbitrary: i)
  case Nil
  then show ?case by simp
next
  case (Cons x xs)
  show ?case
  proof (cases "rmatch r (x # xs) i Map.empty (\<lambda>_ e g. Some (Match i e g))")
    case (Some m')
    then have "m' = m" using Cons.prems by simp
    then show ?thesis using Some by (intro exI [of _ 0]) simp
  next
    case None
    then have "search_from r xs (Suc i) = Some m" using Cons.prems by simp
    then obtain j where j: "j \<le> length xs"
      "rmatch r (drop j xs) (Suc i + j) Map.empty (\<lambda>_ e g. Some (Match (Suc i + j) e g)) = Some m"
      "\<forall>j' < j. rmatch r (drop j' xs) (Suc i + j') Map.empty (\<lambda>_ e g. Some (Match (Suc i + j') e g)) = None"
      using Cons.IH by blast
    have "\<forall>j' < Suc j. rmatch r (drop j' (x # xs)) (i + j') Map.empty (\<lambda>_ e g. Some (Match (i + j') e g)) = None"
    proof (intro allI impI)
      fix j' assume "j' < Suc j"
      then show "rmatch r (drop j' (x # xs)) (i + j') Map.empty (\<lambda>_ e g. Some (Match (i + j') e g)) = None"
        using None j(3) by (cases j') auto
    qed
    then show ?thesis using j(1,2) by (intro exI [of _ "Suc j"]) simp
  qed
qed

lemma search_from_None:
  "search_from r s i = None \<Longrightarrow> j \<le> length s \<Longrightarrow>
   rmatch r (drop j s) (i + j) Map.empty (\<lambda>_ e g. Some (Match (i + j) e g)) = None"
proof (induction s arbitrary: i j)
  case Nil
  then show ?case by simp
next
  case (Cons x xs)
  then have a: "rmatch r (x # xs) i Map.empty (\<lambda>_ e g. Some (Match i e g)) = None"
    and b: "search_from r xs (Suc i) = None"
    by (auto split: option.splits)
  show ?case
  proof (cases j)
    case 0
    then show ?thesis using a by simp
  next
    case (Suc j')
    then show ?thesis using Cons.IH [OF b, of j'] Cons.prems(2) by simp
  qed
qed

section \<open>Occurrences of a word in a line\<close>

lemma sublist_prefix_drop:
  "sublist x s \<longleftrightarrow> (\<exists>j \<le> length s. prefix x (drop j s))"
proof
  assume "sublist x s"
  then obtain u v where "s = u @ x @ v" by (auto simp: sublist_def)
  then have "length u \<le> length s \<and> prefix x (drop (length u) s)" by simp
  then show "\<exists>j \<le> length s. prefix x (drop j s)" by blast
next
  assume "\<exists>j \<le> length s. prefix x (drop j s)"
  then obtain j v where "drop j s = x @ v" by (auto simp: prefix_def)
  then have "s = take j s @ x @ v" by (metis append_take_drop_id)
  then show "sublist x s" unfolding sublist_def by blast
qed

text \<open>An occurrence in front of position \<open>length pre\<close>, seen in the whole line.\<close>

lemma early_occurrence:
  assumes "sublist x (pre @ butlast x)" "x \<noteq> []"
  shows "\<exists>j < length pre. prefix x (drop j (pre @ x @ rest))"
proof -
  obtain u v where uv: "pre @ butlast x = u @ x @ v" using assms(1) by (auto simp: sublist_def)
  have lx: "0 < length x" using assms(2) by simp
  have "length (pre @ butlast x) = length (u @ x @ v)" using uv by simp
  then have "length pre + (length x - 1) = length u + length x + length v"
    by (simp only: length_append length_butlast add.assoc)
  then have lt: "length u < length pre" using lx by linarith
  have "pre @ x @ rest = (pre @ butlast x) @ [last x] @ rest" using assms(2) by simp
  also have "\<dots> = u @ x @ (v @ [last x] @ rest)" using uv by simp
  finally have e: "pre @ x @ rest = u @ x @ (v @ [last x] @ rest)" .
  have "drop (length u) (u @ x @ (v @ [last x] @ rest)) = x @ (v @ [last x] @ rest)" by simp
  then have "drop (length u) (pre @ x @ rest) = x @ (v @ [last x] @ rest)"
    by (simp only: e)
  then show ?thesis using lt by (metis prefixI)
qed

lemma no_early_occurrence:
  assumes "\<forall>j < length pre. \<not> prefix x (drop j (pre @ x @ rest))" "x \<noteq> []"
  shows "\<not> sublist x (pre @ butlast x)"
  using assms early_occurrence by blast

lemma first_occurrence_unique:
  assumes "pre @ x @ rest = pre' @ x @ rest'" "x \<noteq> []"
    "\<not> sublist x (pre @ butlast x)" "\<not> sublist x (pre' @ butlast x)"
  shows "pre = pre' \<and> rest = rest'"
proof -
  have False if lt: "length p < length q" and eq: "p @ x @ r = q @ x @ r'"
    and nq: "\<not> sublist x (q @ butlast x)" for p q r r'
  proof -
    have "0 < length x" using assms(2) by simp
    then have "length p + length x \<le> length q + (length x - 1)"
      using lt by linarith
    then have "length p + length x \<le> length q + length (butlast x)"
      by (simp only: length_butlast)
    then have "length (p @ x) \<le> length (q @ butlast x)" by simp
    moreover have "q @ x @ r' = (q @ butlast x) @ [last x] @ r'" using assms(2) by simp 
    ultimately have "prefix (p @ x) (q @ butlast x)"
      using eq by (metis append.assoc prefixI prefix_length_prefix)
    then have "sublist x (q @ butlast x)"
      by (metis prefix_def sublist_def append.assoc)
    then show False using nq by simp
  qed
  from this [of pre pre' rest rest'] this [of pre' pre rest' rest] assms
  have "length pre = length pre'" by (metis linorder_neqE_nat)
  then show ?thesis using assms(1) by simp
qed

section \<open>The cross-reference pattern and the scan for the closing brace\<close>

lemma ref_word: "rx_word ref_reg w i g g' \<longleftrightarrow> (w = ''ref{'' \<or> w = ''pageref{'') \<and> g' = g"
  by (auto simp: ref_reg_def)

lemma ref_match_None:
  "rmatch ref_reg s i Map.empty (\<lambda>_ e g. Some (Match i e g)) = None \<longleftrightarrow>
   \<not> prefix ''ref{'' s \<and> \<not> prefix ''pageref{'' s"
  by (simp add: ref_reg_def)

lemma ref_match_Some:
  "rmatch ref_reg s i Map.empty (\<lambda>_ e g. Some (Match i e g)) = Some m \<Longrightarrow>
   (prefix ''ref{'' s \<and> m = Match i (i + 4) Map.empty) \<or>
   (prefix ''pageref{'' s \<and> m = Match i (i + 8) Map.empty)"
  by (auto simp: ref_reg_def split: if_splits)

lemma ref_search_None: "re_search ref_reg s = None \<longleftrightarrow> \<not> sublist ''ref{'' s"
proof
  assume n: "re_search ref_reg s = None"
  have "\<not> prefix ''ref{'' (drop j s)" if "j \<le> length s" for j
    using search_from_None [of ref_reg s 0 j] n that
    by (simp add: re_search_def ref_match_None)
  then show "\<not> sublist ''ref{'' s" by (auto simp: sublist_prefix_drop)
next
  assume ns: "\<not> sublist ''ref{'' s"
  show "re_search ref_reg s = None"
  proof (rule ccontr)
    assume "re_search ref_reg s \<noteq> None"
    then obtain m where "search_from ref_reg s 0 = Some m" by (auto simp: re_search_def)
    then obtain j where j: "j \<le> length s"
      "rmatch ref_reg (drop j s) (0 + j) Map.empty (\<lambda>_ e g. Some (Match (0 + j) e g)) = Some m"
      using search_from_Some by blast
    then have "prefix ''ref{'' (drop j s) \<or> prefix ''pageref{'' (drop j s)"
      using ref_match_Some by blast
    then show False
    proof
      assume "prefix ''ref{'' (drop j s)"
      then show False using ns j(1) by (auto simp: sublist_prefix_drop)
    next
      assume "prefix ''pageref{'' (drop j s)"
      then obtain v where "drop j s = ''pageref{'' @ v" by (auto simp: prefix_def)
      then have "s = (take j s @ ''page'') @ ''ref{'' @ v" by (metis append_take_drop_id append.assoc append_Cons append_Nil)
      then show False using ns unfolding sublist_def by blast
    qed
  qed
qed

lemma ref_search_Some:
  assumes "re_search ref_reg s = Some m"
  shows "\<exists>pre rest. s = pre @ ''ref{'' @ rest \<and> \<not> sublist ''ref{'' (pre @ ''ref'') \<and>
           m_end m = length pre + 4 \<and> m_start m \<le> length pre \<and>
           CHR ''}'' \<notin> set (drop (m_start m) pre)"
proof -
  from assms obtain j where j: "j \<le> length s"
    "rmatch ref_reg (drop j s) (0 + j) Map.empty (\<lambda>_ e g. Some (Match (0 + j) e g)) = Some m"
    "\<forall>j' < j. rmatch ref_reg (drop j' s) (0 + j') Map.empty (\<lambda>_ e g. Some (Match (0 + j') e g)) = None"
    unfolding re_search_def using search_from_Some by blast
  have before: "\<not> prefix ''ref{'' (drop j' s)" if "j' < j" for j'
    using j(3) that by (simp add: ref_match_None)
  from j(2) have "(prefix ''ref{'' (drop j s) \<and> m = Match j (j + 4) Map.empty) \<or>
      (prefix ''pageref{'' (drop j s) \<and> m = Match j (j + 8) Map.empty)"
    using ref_match_Some [of "drop j s" j m] by simp
  then show ?thesis
  proof
    assume a: "prefix ''ref{'' (drop j s) \<and> m = Match j (j + 4) Map.empty"
    then obtain rest where "drop j s = ''ref{'' @ rest" by (auto simp: prefix_def)
    then have s: "s = take j s @ ''ref{'' @ rest" by (metis append_take_drop_id)
    have lj: "length (take j s) = j" using j(1) by simp
    have "\<forall>j' < length (take j s). \<not> prefix ''ref{'' (drop j' (take j s @ ''ref{'' @ rest))"
      using before s lj by metis
    then have "\<not> sublist ''ref{'' (take j s @ butlast ''ref{'')"
      by (rule no_early_occurrence) simp
    then have "\<not> sublist ''ref{'' (take j s @ ''ref'')" by simp
    then have "s = take j s @ ''ref{'' @ rest \<and> \<not> sublist ''ref{'' (take j s @ ''ref'') \<and>
        m_end m = length (take j s) + 4 \<and> m_start m \<le> length (take j s) \<and>
        CHR ''}'' \<notin> set (drop (m_start m) (take j s))"
      using s a lj by simp
    then show ?thesis by blast
  next
    assume a: "prefix ''pageref{'' (drop j s) \<and> m = Match j (j + 8) Map.empty"
    then obtain rest where d: "drop j s = ''pageref{'' @ rest" by (auto simp: prefix_def)
    let ?pre = "take j s @ ''page''"
    have s: "s = ?pre @ ''ref{'' @ rest" using d by (metis append_take_drop_id append.assoc append_Cons append_Nil)
    have lj: "length (take j s) = j" using j(1) by simp
    have F: "\<not> prefix ''ref{'' (drop j' (?pre @ ''ref{'' @ rest))" if "j' < length ?pre" for j'
    proof (cases "j' < j")
      case True
      then show ?thesis using before s by metis
    next
      case False
      define k where "k = j' - j"
      have k: "j' = j + k" "k < 4" using False that lj by (simp_all add: k_def)
      have "drop j' s = drop k (drop j s)" using k(1) by (simp add: add.commute)
      then have "drop j' s = drop k (''pageref{'' @ rest)" using d by simp
      moreover have "k = 0 \<or> k = 1 \<or> k = 2 \<or> k = 3" using k(2) by linarith
      ultimately have "\<not> prefix ''ref{'' (drop j' s)" by auto
      then show ?thesis using s by metis
    qed
    have "\<forall>j' < length ?pre. \<not> prefix ''ref{'' (drop j' (?pre @ ''ref{'' @ rest))"
      using F by blast
    then have "\<not> sublist ''ref{'' (?pre @ butlast ''ref{'')"
      by (rule no_early_occurrence) simp
    then have "\<not> sublist ''ref{'' (?pre @ ''ref'')" by simp
    then have "s = ?pre @ ''ref{'' @ rest \<and> \<not> sublist ''ref{'' (?pre @ ''ref'') \<and>
        m_end m = length ?pre + 4 \<and> m_start m \<le> length ?pre \<and>
        CHR ''}'' \<notin> set (drop (m_start m) ?pre)"
      using s a lj by simp
    then show ?thesis by blast
  qed
qed

lemma scan_for_brace_found:
  "drop i line = a @ CHR ''}'' # b \<Longrightarrow> CHR ''}'' \<notin> set a \<Longrightarrow>
   scan_for_brace line i = int (i + length a)"
proof (induction a arbitrary: i)
  case Nil
  then have "i < length line" "line ! i = CHR ''}''"
    by (metis drop_eq_Nil linorder_not_less list.distinct(1) append_Nil,
        metis append_Nil nth_via_drop)
  then show ?case by (subst scan_for_brace.simps) simp
next
  case (Cons x a)
  then have i: "i < length line" "line ! i = x"
    by (metis drop_eq_Nil linorder_not_less list.distinct(1) append_Cons,
        metis append_Cons nth_via_drop)
  have "drop (Suc i) line = a @ CHR ''}'' # b"
    using Cons.prems(1) by (metis append_Cons drop_Suc list.sel(3) tl_drop)
  then have "scan_for_brace line (Suc i) = int (Suc i + length a)"
    using Cons.IH Cons.prems(2) by simp
  then show ?case using i Cons.prems(2) by (subst scan_for_brace.simps) auto
qed

lemma scan_for_brace_none:
  "CHR ''}'' \<notin> set (drop i line) \<Longrightarrow> scan_for_brace line i = - 1"
proof (induction line i rule: scan_for_brace.induct)
  case (1 line i)
  show ?case
  proof (cases "i < length line")
    case True
    then have "line ! i \<in> set (drop i line)"
      by (metis Cons_nth_drop_Suc list.set_intros(1))
    then have ne: "line ! i \<noteq> CHR ''}''" using "1.prems" by auto
    have "set (drop (Suc i) line) \<subseteq> set (drop i line)"
      by (rule set_drop_subset_set_drop) simp
    then have "scan_for_brace line (Suc i) = - 1"
      using "1.IH" True ne "1.prems" by auto
    then show ?thesis using True ne by (subst scan_for_brace.simps) simp
  next
    case False
    then show ?thesis by (subst scan_for_brace.simps) simp
  qed
qed

lemma scan_for_brace_from:
  assumes "line = pre @ x @ rest" "j \<le> length pre" "CHR ''}'' \<notin> set (drop j pre)" "CHR ''}'' \<notin> set x"
  shows "scan_for_brace line j =
     (if CHR ''}'' \<in> set rest
      then int (length pre + length x + length (takeWhile (\<lambda>c. c \<noteq> CHR ''}'') rest))
      else - 1)"
proof (cases "CHR ''}'' \<in> set rest")
  case True
  let ?a = "takeWhile (\<lambda>c. c \<noteq> CHR ''}'') rest"
  have dne: "dropWhile (\<lambda>c. c \<noteq> CHR ''}'') rest \<noteq> []"
    using True by (simp add: dropWhile_eq_Nil_conv)
  then obtain y b where yb: "dropWhile (\<lambda>c. c \<noteq> CHR ''}'') rest = y # b"
    by (cases "dropWhile (\<lambda>c. c \<noteq> CHR ''}'') rest") auto
  have "\<not> hd (dropWhile (\<lambda>c. c \<noteq> CHR ''}'') rest) \<noteq> CHR ''}''"
    using dne by (rule hd_dropWhile)
  then have "y = CHR ''}''" using yb by simp
  then have b: "rest = ?a @ CHR ''}'' # b"
    using yb takeWhile_dropWhile_id [of "\<lambda>c. c \<noteq> CHR ''}''" rest] by simp
  have "drop j line = (drop j pre @ x @ ?a) @ CHR ''}'' # b"
    using assms(1,2) b by simp
  moreover have "CHR ''}'' \<notin> set (drop j pre @ x @ ?a)"
    using assms(3,4) by (auto dest: set_takeWhileD)
  ultimately have "scan_for_brace line j = int (j + length (drop j pre @ x @ ?a))"
    by (rule scan_for_brace_found)
  then show ?thesis using True assms(2) by simp
next
  case False
  then have "CHR ''}'' \<notin> set (drop j line)" using assms by simp
  then show ?thesis using False by (simp add: scan_for_brace_none)
qed

section \<open>Definition resolution\<close>

lemma takeWhile_brace_split:
  assumes "CHR ''}'' \<in> set rest"
  shows "\<exists>post. rest = takeWhile (\<lambda>c. c \<noteq> CHR ''}'') rest @ ''}'' @ post"
proof -
  have dne: "dropWhile (\<lambda>c. c \<noteq> CHR ''}'') rest \<noteq> []"
    using assms by (simp add: dropWhile_eq_Nil_conv)
  then obtain y b where yb: "dropWhile (\<lambda>c. c \<noteq> CHR ''}'') rest = y # b"
    by (cases "dropWhile (\<lambda>c. c \<noteq> CHR ''}'') rest") auto
  have "\<not> hd (dropWhile (\<lambda>c. c \<noteq> CHR ''}'') rest) \<noteq> CHR ''}''"
    using dne by (rule hd_dropWhile)
  then have "y = CHR ''}''" using yb by simp
  then have "rest = takeWhile (\<lambda>c. c \<noteq> CHR ''}'') rest @ ''}'' @ b"
    using yb takeWhile_dropWhile_id [of "\<lambda>c. c \<noteq> CHR ''}''" rest] by simp
  then show ?thesis by blast
qed

lemma takeWhile_brace_ident:
  "CHR ''}'' \<notin> set ident \<Longrightarrow> takeWhile (\<lambda>c. c \<noteq> CHR ''}'') (ident @ CHR ''}'' # post) = ident"
  by (induction ident) auto

lemma py_slice_nat:
  "a \<le> b \<Longrightarrow> b \<le> length xs \<Longrightarrow> py_slice (int a) (int b) xs = take (b - a) (drop a xs)"
  by (simp add: py_slice_def clip_index_def Let_def)

lemma GoToDefinition_no_ref:
  assumes "\<not> sublist ''ref{'' (line_value req)"
  shows "GoToDefinition st req = Inl NavigationNotFound"
  using assms by (simp add: GoToDefinition_def find_end_of_command_def ref_search_None [symmetric])

lemma GoToDefinition_first_ref:
  assumes line: "line_value req = pre @ ''ref{'' @ rest" and first: "\<not> sublist ''ref{'' (pre @ ''ref'')"
  shows "GoToDefinition st req =
     (if CHR ''}'' \<in> set rest
      then (case goto_labels st (takeWhile (\<lambda>c. c \<noteq> CHR ''}'') rest) of
              None \<Rightarrow> Inl NavigationNotFound
            | Some (filename, lnum, col) \<Rightarrow> Inr (GoToResponse filename lnum col))
      else Inl NavigationNotFound)"
proof -
  let ?line = "line_value req"
  have "sublist ''ref{'' ?line" unfolding line sublist_def by blast
  then have "re_search ref_reg ?line \<noteq> None" by (simp add: ref_search_None)
  then obtain m where m: "re_search ref_reg ?line = Some m" by blast
  then obtain pre' rest' where p: "?line = pre' @ ''ref{'' @ rest'"
      "\<not> sublist ''ref{'' (pre' @ ''ref'')" "m_end m = length pre' + 4"
      "m_start m \<le> length pre'" "CHR ''}'' \<notin> set (drop (m_start m) pre')"
    using ref_search_Some by blast
  have "pre @ ''ref{'' @ rest = pre' @ ''ref{'' @ rest'" using line p(1) by simp
  moreover have "\<not> sublist ''ref{'' (pre @ butlast ''ref{'')" using first by simp
  moreover have "\<not> sublist ''ref{'' (pre' @ butlast ''ref{'')" using p(2) by simp
  ultimately have eq: "pre = pre' \<and> rest = rest'"
    using first_occurrence_unique [of pre "''ref{''" rest pre' rest'] by simp
  have me: "m_end m = length pre + 4" and ms: "m_start m \<le> length pre"
    and nb: "CHR ''}'' \<notin> set (drop (m_start m) pre)"
    using p eq by simp_all
  have scan: "scan_for_brace ?line (m_start m) =
     (if CHR ''}'' \<in> set rest
      then int (length pre + length ''ref{'' + length (takeWhile (\<lambda>c. c \<noteq> CHR ''}'') rest))
      else - 1)"
    using line ms nb by (intro scan_for_brace_from) simp_all
  show ?thesis
  proof (cases "CHR ''}'' \<in> set rest")
    case False
    then show ?thesis using m scan
      by (simp add: GoToDefinition_def find_end_of_command_def)
  next
    case True
    let ?ident = "takeWhile (\<lambda>c. c \<noteq> CHR ''}'') rest"
    have eoc: "find_end_of_command ?line (Some m) = int (length pre + 4 + length ?ident)"
      using scan True by (simp add: find_end_of_command_def)
    have "length ?ident \<le> length rest" by (rule length_takeWhile_le)
    then have len: "length pre + 4 + length ?ident \<le> length ?line" unfolding line by simp
    have "py_slice (int (length pre + 4)) (int (length pre + 4 + length ?ident)) ?line =
          take (length pre + 4 + length ?ident - (length pre + 4)) (drop (length pre + 4) ?line)"
      using len by (intro py_slice_nat) simp_all
    then have "py_slice (int (m_end m)) (int (length pre + 4 + length ?ident)) ?line =
          take (length ?ident) (drop (length pre + 4) ?line)"
      unfolding me by simp
    also have "\<dots> = take (length ?ident) rest" unfolding line by simp
    also have "\<dots> = ?ident" by (metis append_eq_conv_conj takeWhile_dropWhile_id)
    finally have ref: "py_slice (int (m_end m)) (int (length pre + 4 + length ?ident)) ?line = ?ident" .
    show ?thesis
      unfolding GoToDefinition_def Let_def m eoc using True ref
      by (simp split: option.splits)
  qed
qed

text \<open>
  Claim C6. For every line and every label index, definition resolution fails with
  \<open>NavigationNotFound\<close> exactly when the line holds no cross-reference command
  \<open>ref{\<close> (\<open>pageref{\<close> ends with it), or no closing brace follows the first such
  command, or the identifier between that command and the next closing brace has no entry
  in the label index. In every other case it returns the file, line and column stored
  for that identifier, as they are stored; it never ends with another error.
\<close>

theorem GoToDefinition_resolves:
  "(GoToDefinition st req = Inl NavigationNotFound \<longleftrightarrow>
      \<not> sublist ''ref{'' (line_value req) \<or>
      (\<exists>pre rest. line_value req = pre @ ''ref{'' @ rest \<and>
          \<not> sublist ''ref{'' (pre @ ''ref'') \<and> CHR ''}'' \<notin> set rest) \<or>
      (\<exists>pre ident post. line_value req = pre @ ''ref{'' @ ident @ ''}'' @ post \<and>
          \<not> sublist ''ref{'' (pre @ ''ref'') \<and> CHR ''}'' \<notin> set ident \<and>
          goto_labels st ident = None)) \<and>
   (GoToDefinition st req \<noteq> Inl NavigationNotFound \<longrightarrow>
      (\<exists>pre ident post filename lnum col.
          line_value req = pre @ ''ref{'' @ ident @ ''}'' @ post \<and>
          \<not> sublist ''ref{'' (pre @ ''ref'') \<and> CHR ''}'' \<notin> set ident \<and>
          goto_labels st ident = Some (filename, lnum, col) \<and>
          GoToDefinition st req = Inr (GoToResponse filename lnum col))) \<and>
   (\<forall>pre ident post filename lnum col.
      line_value req = pre @ ''ref{'' @ ident @ ''}'' @ post \<and>
      \<not> sublist ''ref{'' (pre @ ''ref'') \<and> CHR ''}'' \<notin> set ident \<and>
      goto_labels st ident = Some (filename, lnum, col) \<longrightarrow>
      GoToDefinition st req = Inr (GoToResponse filename lnum col))"
proof -
  let ?line = "line_value req"
  let ?nf = "Inl NavigationNotFound :: error + goto_response"
  have c2: "GoToDefinition st req = ?nf"
    if "?line = pre @ ''ref{'' @ rest" "\<not> sublist ''ref{'' (pre @ ''ref'')" "CHR ''}'' \<notin> set rest"
    for pre rest
    using GoToDefinition_first_ref [OF that(1,2)] that(3) by simp
  have c3: "GoToDefinition st req =
      (case goto_labels st ident of None \<Rightarrow> ?nf
       | Some (filename, lnum, col) \<Rightarrow> Inr (GoToResponse filename lnum col))"
    if "?line = pre @ ''ref{'' @ ident @ ''}'' @ post" "\<not> sublist ''ref{'' (pre @ ''ref'')"
      "CHR ''}'' \<notin> set ident"
    for pre ident post
    using GoToDefinition_first_ref [OF that(1,2)] that(3)
    by (simp add: takeWhile_brace_ident)
  have dec: "(\<exists>pre rest. ?line = pre @ ''ref{'' @ rest \<and> \<not> sublist ''ref{'' (pre @ ''ref'') \<and>
                 CHR ''}'' \<notin> set rest) \<or>
             (\<exists>pre ident post. ?line = pre @ ''ref{'' @ ident @ ''}'' @ post \<and>
                 \<not> sublist ''ref{'' (pre @ ''ref'') \<and> CHR ''}'' \<notin> set ident)"
    if sub: "sublist ''ref{'' ?line"
  proof -
    have "re_search ref_reg ?line \<noteq> None" using sub by (simp add: ref_search_None)
    then obtain m where "re_search ref_reg ?line = Some m" by blast
    then obtain pre rest where p: "?line = pre @ ''ref{'' @ rest" "\<not> sublist ''ref{'' (pre @ ''ref'')"
      using ref_search_Some by blast
    show ?thesis
    proof (cases "CHR ''}'' \<in> set rest")
      case False
      then show ?thesis using p by blast
    next
      case True
      then obtain post where "rest = takeWhile (\<lambda>c. c \<noteq> CHR ''}'') rest @ ''}'' @ post"
        using takeWhile_brace_split by blast
      then have "?line = pre @ ''ref{'' @ takeWhile (\<lambda>c. c \<noteq> CHR ''}'') rest @ ''}'' @ post"
        using p(1) by simp
      moreover have "CHR ''}'' \<notin> set (takeWhile (\<lambda>c. c \<noteq> CHR ''}'') rest)"
        by (auto dest: set_takeWhileD)
      ultimately show ?thesis using p(2) by blast
    qed
  qed
  have part1: "GoToDefinition st req = ?nf \<longleftrightarrow>
      \<not> sublist ''ref{'' ?line \<or>
      (\<exists>pre rest. ?line = pre @ ''ref{'' @ rest \<and>
          \<not> sublist ''ref{'' (pre @ ''ref'') \<and> CHR ''}'' \<notin> set rest) \<or>
      (\<exists>pre ident post. ?line = pre @ ''ref{'' @ ident @ ''}'' @ post \<and>
          \<not> sublist ''ref{'' (pre @ ''ref'') \<and> CHR ''}'' \<notin> set ident \<and>
          goto_labels st ident = None)"
  proof
    assume nf: "GoToDefinition st req = ?nf"
    show "\<not> sublist ''ref{'' ?line \<or>
      (\<exists>pre rest. ?line = pre @ ''ref{'' @ rest \<and>
          \<not> sublist ''ref{'' (pre @ ''ref'') \<and> CHR ''}'' \<notin> set rest) \<or>
      (\<exists>pre ident post. ?line = pre @ ''ref{'' @ ident @ ''}'' @ post \<and>
          \<not> sublist ''ref{'' (pre @ ''ref'') \<and> CHR ''}'' \<notin> set ident \<and>
          goto_labels st ident = None)"
    proof (cases "sublist ''ref{'' ?line")
      case False
      then show ?thesis by simp
    next
      case True
      from dec [OF True] show ?thesis
      proof
        assume "\<exists>pre rest. ?line = pre @ ''ref{'' @ rest \<and> \<not> sublist ''ref{'' (pre @ ''ref'') \<and>
                 CHR ''}'' \<notin> set rest"
        then show ?thesis by blast
      next
        assume "\<exists>pre ident post. ?line = pre @ ''ref{'' @ ident @ ''}'' @ post \<and>
                 \<not> sublist ''ref{'' (pre @ ''ref'') \<and> CHR ''}'' \<notin> set ident"
        then obtain pre ident post where p: "?line = pre @ ''ref{'' @ ident @ ''}'' @ post"
            "\<not> sublist ''ref{'' (pre @ ''ref'')" "CHR ''}'' \<notin> set ident" by blast
        have "goto_labels st ident = None"
          using c3 [OF p] nf by (auto split: option.splits)
        then show ?thesis using p by blast
      qed
    qed
  next
    assume "\<not> sublist ''ref{'' ?line \<or>
      (\<exists>pre rest. ?line = pre @ ''ref{'' @ rest \<and>
          \<not> sublist ''ref{'' (pre @ ''ref'') \<and> CHR ''}'' \<notin> set rest) \<or>
      (\<exists>pre ident post. ?line = pre @ ''ref{'' @ ident @ ''}'' @ post \<and>
          \<not> sublist ''ref{'' (pre @ ''ref'') \<and> CHR ''}'' \<notin> set ident \<and>
          goto_labels st ident = None)"
    then show "GoToDefinition st req = ?nf"
    proof (elim disjE exE conjE)
      assume "\<not> sublist ''ref{'' ?line"
      then show ?thesis by (rule GoToDefinition_no_ref)
    next
      fix pre rest
      assume "?line = pre @ ''ref{'' @ rest" "\<not> sublist ''ref{'' (pre @ ''ref'')" "CHR ''}'' \<notin> set rest"
      then show ?thesis by (rule c2)
    next
      fix pre ident post
      assume "?line = pre @ ''ref{'' @ ident @ ''}'' @ post" "\<not> sublist ''ref{'' (pre @ ''ref'')"
        "CHR ''}'' \<notin> set ident" "goto_labels st ident = None"
      then show ?thesis using c3 [of pre ident post] by simp
    qed
  qed
  have part2: "\<exists>pre ident post filename lnum col.
          ?line = pre @ ''ref{'' @ ident @ ''}'' @ post \<and>
          \<not> sublist ''ref{'' (pre @ ''ref'') \<and> CHR ''}'' \<notin> set ident \<and>
          goto_labels st ident = Some (filename, lnum, col) \<and>
          GoToDefinition st req = Inr (GoToResponse filename lnum col)"
    if ne: "GoToDefinition st req \<noteq> ?nf"
  proof -
    have sub: "sublist ''ref{'' ?line" using ne GoToDefinition_no_ref by blast
    from dec [OF sub] show ?thesis
    proof
      assume "\<exists>pre rest. ?line = pre @ ''ref{'' @ rest \<and> \<not> sublist ''ref{'' (pre @ ''ref'') \<and>
                 CHR ''}'' \<notin> set rest"
      then show ?thesis using c2 ne by blast
    next
      assume "\<exists>pre ident post. ?line = pre @ ''ref{'' @ ident @ ''}'' @ post \<and>
                 \<not> sublist ''ref{'' (pre @ ''ref'') \<and> CHR ''}'' \<notin> set ident"
      then obtain pre ident post where p: "?line = pre @ ''ref{'' @ ident @ ''}'' @ post"
          "\<not> sublist ''ref{'' (pre @ ''ref'')" "CHR ''}'' \<notin> set ident" by blast
      obtain filename lnum col where l: "goto_labels st ident = Some (filename, lnum, col)"
        using c3 [OF p] ne by (cases "goto_labels st ident") auto
      then have "GoToDefinition st req = Inr (GoToResponse filename lnum col)"
        using c3 [OF p] by simp
      then show ?thesis using p l by blast
    qed
  qed
  have part3: "GoToDefinition st req = Inr (GoToResponse filename lnum col)"
    if "?line = pre @ ''ref{'' @ ident @ ''}'' @ post \<and>
      \<not> sublist ''ref{'' (pre @ ''ref'') \<and> CHR ''}'' \<notin> set ident \<and>
      goto_labels st ident = Some (filename, lnum, col)"
    for pre ident post filename lnum col
    using c3 [of pre ident post] that by simp
  show ?thesis
  proof (intro conjI allI impI)
    show "GoToDefinition st req = ?nf \<longleftrightarrow>
      \<not> sublist ''ref{'' ?line \<or>
      (\<exists>pre rest. ?line = pre @ ''ref{'' @ rest \<and>
          \<not> sublist ''ref{'' (pre @ ''ref'') \<and> CHR ''}'' \<notin> set rest) \<or>
      (\<exists>pre ident post. ?line = pre @ ''ref{'' @ ident @ ''}'' @ post \<and>
          \<not> sublist ''ref{'' (pre @ ''ref'') \<and> CHR ''}'' \<notin> set ident \<and>
          goto_labels st ident = None)" by (rule part1)
  next
    assume "GoToDefinition st req \<noteq> ?nf"
    then show "\<exists>pre ident post filename lnum col.
          ?line = pre @ ''ref{'' @ ident @ ''}'' @ post \<and>
          \<not> sublist ''ref{'' (pre @ ''ref'') \<and> CHR ''}'' \<notin> set ident \<and>
          goto_labels st ident = Some (filename, lnum, col) \<and>
          GoToDefinition st req = Inr (GoToResponse filename lnum col)" by (rule part2)
  next
    fix pre ident post filename lnum col
    assume "?line = pre @ ''ref{'' @ ident @ ''}'' @ post \<and>
      \<not> sublist ''ref{'' (pre @ ''ref'') \<and> CHR ''}'' \<notin> set ident \<and>
      goto_labels st ident = Some (filename, lnum, col)"
    then show "GoToDefinition st req = Inr (GoToResponse filename lnum col)" by (rule part3)
  qed
qed

theorem GoToDefinition_resolves_witness:
  "GoToDefinition demo_labels demo_req_known = Inr (GoToResponse ''fileX'' 7 4) \<and>
   GoToDefinition demo_labels demo_req_unknown = Inl NavigationNotFound"
proof
  have n: "\<not> sublist ''ref{'' ((''See '' @ [CHR 0x5C]) @ ''ref'')" by (simp add: sublist_Cons_right)
  have "line_value demo_req_known = (''See '' @ [CHR 0x5C]) @ ''ref{'' @ ''fig1'' @ ''}'' @ '' for details'' \<and>
      \<not> sublist ''ref{'' ((''See '' @ [CHR 0x5C]) @ ''ref'') \<and> CHR ''}'' \<notin> set ''fig1'' \<and>
      goto_labels demo_labels ''fig1'' = Some (''fileX'', 7, 4)"
    using n by (simp add: demo_req_known_def demo_labels_def init_def)
  then show "GoToDefinition demo_labels demo_req_known = Inr (GoToResponse ''fileX'' 7 4)"
    by (rule GoToDefinition_resolves [THEN conjunct2, THEN conjunct2, rule_format])
  have "\<exists>pre ident post. line_value demo_req_unknown = pre @ ''ref{'' @ ident @ ''}'' @ post \<and>
      \<not> sublist ''ref{'' (pre @ ''ref'') \<and> CHR ''}'' \<notin> set ident \<and>
      goto_labels demo_labels ident = None"
    using n
    by (intro exI [of _ "(''See '' @ [CHR 0x5C])"] exI [of _ "''unknown''"] exI [of _ "[]"])
       (simp add: demo_req_unknown_def demo_labels_def init_def)
  then show "GoToDefinition demo_labels demo_req_unknown = Inl NavigationNotFound"
    by (rule GoToDefinition_resolves [THEN conjunct1, THEN iffD2, OF disjI2, OF disjI2])
qed

section \<open>The label pattern and the lines of a file\<close>

lemma label_reg_head:
  "rmatch label_reg s i g k =
   rmatch label_head s i g (\<lambda>s4 i4 g4. star_match AnyChar s4 i4 (\<lambda>s5 i5. k s5 i5 g4))"
  by (simp add: label_reg_def label_head_def)

lemma label_head_word:
  assumes "rx_word label_head w i g g'"
  shows "\<exists>pre lid. w = pre @ ''label{'' @ lid @ ''}'' \<and>
       g' 1 = Some (i + length pre + 6, i + length pre + 6 + length lid)"
  using assms
  apply (auto simp: label_head_def add.assoc)
  subgoal for w1 w1a
    by (rule exI [of _ w1], rule exI [of _ w1a], simp)
  done

lemma rx_word_CatI:
  "rx_word a w1 i g g1 \<Longrightarrow> rx_word b w2 (i + length w1) g1 g' \<Longrightarrow> rx_word (Cat a b) (w1 @ w2) i g g'"
  by auto

lemma label_reg_word:
  assumes "list_all (accepts AnyChar) pre" "list_all (accepts AnyChar) lid"
  shows "rx_word label_reg (pre @ ''label{'' @ lid @ ''}'') i g
     (g(1 \<mapsto> (i + length pre + 6, i + length pre + 6 + length lid)))"
proof -
  let ?g = "g(1 \<mapsto> (i + length pre + length ''label{'', i + length pre + length ''label{'' + length lid))"
  have 1: "rx_word (Star AnyChar) pre i g g" using assms(1) by simp
  have 2: "rx_word (Lit ''label{'') ''label{'' (i + length pre) g g" by simp
  have 3: "rx_word (Group 1 (Star AnyChar)) lid (i + length pre + length ''label{'') g ?g"
    using assms(2) by simp
  have 4: "rx_word (Lit ''}'') ''}'' (i + length pre + length ''label{'' + length lid) ?g ?g" by simp
  have 5: "rx_word (Star AnyChar) [] (i + length pre + length ''label{'' + length lid + length ''}'') ?g ?g"
    by simp
  note all = rx_word_CatI [OF 1 rx_word_CatI [OF 2 rx_word_CatI [OF 3 rx_word_CatI [OF 4 5]]]]
  have w: "pre @ ''label{'' @ lid @ ''}'' = pre @ ''label{'' @ lid @ ''}'' @ []" by simp
  have len: "length ''label{'' = 6" by simp
  have g: "g(1 \<mapsto> (i + length pre + 6, i + length pre + 6 + length lid)) = ?g"
    unfolding len ..
  show ?thesis unfolding label_reg_def by (subst g, subst w) (rule all)
qed

lemma label_match_Some:
  assumes "list_all (accepts AnyChar) s"
    and "rmatch label_reg s i Map.empty (\<lambda>_ e g. Some (Match i e g)) = Some m"
  shows "\<exists>pre lid post. s = pre @ ''label{'' @ lid @ ''}'' @ post \<and>
           m_start m = i \<and> m_end m = i + length s \<and>
           m_groups m 1 = Some (i + length pre + 6, i + length pre + 6 + length lid)"
proof -
  let ?k = "\<lambda>s4 i4 g4. star_match AnyChar s4 i4 (\<lambda>s5 i5. Some (Match i i5 g4))"
  have "rmatch label_head s i Map.empty ?k = Some m"
    using assms(2) by (simp add: label_reg_head)
  then obtain w s' g' where w: "s = w @ s'" "rx_word label_head w i Map.empty g'"
      "?k s' (i + length w) g' = Some m"
    using rmatch_sound [of label_head s i Map.empty ?k m] by blast
  have "list_all (accepts AnyChar) s'" using assms(1) w(1) by simp
  then have "?k s' (i + length w) g' = Some (Match i (i + length w + length s') g')"
    by (subst star_match_all) simp_all
  then have m: "m = Match i (i + length s) g'" using w(1,3) by (simp add: add.assoc)
  from w(2) obtain pre lid where p: "w = pre @ ''label{'' @ lid @ ''}''"
      "g' 1 = Some (i + length pre + 6, i + length pre + 6 + length lid)"
    using label_head_word by blast
  have "s = pre @ ''label{'' @ lid @ ''}'' @ s'" using w(1) p(1) by simp
  then show ?thesis using m p(2) by auto
qed

lemma label_match_complete:
  assumes "list_all (accepts AnyChar) pre" "list_all (accepts AnyChar) lid"
  shows "rmatch label_reg (pre @ ''label{'' @ lid @ ''}'' @ post) i Map.empty
           (\<lambda>_ e g. Some (Match i e g)) \<noteq> None"
proof -
  let ?w = "pre @ ''label{'' @ lid @ ''}''"
  have "rmatch label_reg (?w @ post) i Map.empty (\<lambda>_ e g. Some (Match i e g)) \<noteq> None"
    by (rule rmatch_complete [OF label_reg_word [OF assms]]) simp
  then show ?thesis by simp
qed

lemma label_search_Some:
  assumes nl: "list_all (accepts AnyChar) s" and m: "re_search label_reg s = Some m"
  shows "\<exists>pre lid post. s = pre @ ''label{'' @ lid @ ''}'' @ post \<and>
           m_start m = 0 \<and> m_end m = length s \<and>
           m_groups m 1 = Some (length pre + 6, length pre + 6 + length lid)"
proof -
  from m obtain j where j: "j \<le> length s"
    "rmatch label_reg (drop j s) (0 + j) Map.empty (\<lambda>_ e g. Some (Match (0 + j) e g)) = Some m"
    "\<forall>j' < j. rmatch label_reg (drop j' s) (0 + j') Map.empty (\<lambda>_ e g. Some (Match (0 + j') e g)) = None"
    unfolding re_search_def using search_from_Some by blast
  have nlj: "list_all (accepts AnyChar) (drop j s)"
    using nl by (auto simp: list_all_iff dest: in_set_dropD)
  from label_match_Some [OF nlj j(2)]
  obtain pre lid post where d: "drop j s = pre @ ''label{'' @ lid @ ''}'' @ post"
    by blast
  have "j = 0"
  proof (rule ccontr)
    assume "j \<noteq> 0"
    then have z: "rmatch label_reg (drop 0 s) (0 + 0) Map.empty (\<lambda>_ e g. Some (Match (0 + 0) e g)) = None"
      using j(3) by blast
    have "s = take j s @ drop j s" by simp
    then have s: "s = (take j s @ pre) @ ''label{'' @ lid @ ''}'' @ post"
      unfolding d by simp
    have "list_all (accepts AnyChar) (take j s @ pre)" "list_all (accepts AnyChar) lid"
      using nl s by (metis list_all_append)+
    then have "rmatch label_reg ((take j s @ pre) @ ''label{'' @ lid @ ''}'' @ post) 0 Map.empty
        (\<lambda>_ e g. Some (Match 0 e g)) \<noteq> None"
      by (rule label_match_complete)
    then show False using z s by simp
  qed
  then have "rmatch label_reg s 0 Map.empty (\<lambda>_ e g. Some (Match 0 e g)) = Some m"
    using j(2) by simp
  from label_match_Some [OF nl this] show ?thesis by simp
qed


lemma label_sub:
  assumes "s = pre @ ''label{'' @ lid @ ''}'' @ post"
    and "re_search label_reg s = Some m" "m_start m = 0" "m_end m = length s"
    and "m_groups m 1 = Some (length pre + 6, length pre + 6 + length lid)"
  shows "re_sub_group label_reg 1 s = lid"
proof -
  have e: "re_sub_group label_reg 1 [] = []"
    by (subst re_sub_group.simps) (simp add: re_search_def label_reg_def)
  have "take (length lid) (drop (length pre + 6) s) = lid" unfolding assms(1) by simp
  then have g: "group_text s m 1 = lid"
    by (simp add: group_text_def assms(5) del: One_nat_def)
  have "0 < length s" unfolding assms(1) by simp
  then have "re_sub_group label_reg 1 s = take 0 s @ lid @ re_sub_group label_reg 1 []"
    by (subst re_sub_group.simps) (simp add: assms(2,3,4) g del: One_nat_def)
  then show ?thesis using e by simp
qed

subsection \<open>Lines of a file\<close>

lemma isspace_linebreak: "is_linebreak c \<Longrightarrow> isspace c"
  by (auto simp: is_linebreak_def isspace_def)

lemma splitlines_shape:
  "l \<in> set (splitlines_keepends t) \<Longrightarrow>
   \<exists>body ending. l = body @ ending \<and> (\<forall>c\<in>set body. \<not> is_linebreak c) \<and> (\<forall>c\<in>set ending. is_linebreak c)"
proof (induction t arbitrary: l rule: splitlines_keepends.induct)
  case 1
  then show ?case by simp
next
  case (2 c)
  then have l: "l = [c]" by simp
  show ?case
  proof (cases "is_linebreak c")
    case True
    then have "l = [] @ [c] \<and> (\<forall>x\<in>set []. \<not> is_linebreak x) \<and> (\<forall>x\<in>set [c]. is_linebreak x)"
      using l by simp
    then show ?thesis by blast
  next
    case False
    then have "l = [c] @ [] \<and> (\<forall>x\<in>set [c]. \<not> is_linebreak x) \<and> (\<forall>x\<in>set []. is_linebreak x)"
      using l by simp
    then show ?thesis by blast
  qed
next
  case (3 c d ds)
  show ?case
  proof (cases "c = CHR 0x0D \<and> d = CHR 0x0A")
    case True
    then have "l = [c, d] \<or> l \<in> set (splitlines_keepends ds)" using "3.prems" by auto
    then show ?thesis
    proof
      assume "l = [c, d]"
      then have "l = [] @ [c, d] \<and> (\<forall>x\<in>set []. \<not> is_linebreak x) \<and> (\<forall>x\<in>set [c, d]. is_linebreak x)"
        using True by (simp add: is_linebreak_def)
      then show ?thesis by blast
    next
      assume "l \<in> set (splitlines_keepends ds)"
      then show ?thesis using "3.IH"(1) True by blast
    qed
  next
    case nocrlf: False
    show ?thesis
    proof (cases "is_linebreak c")
      case True
      then have "l = [c] \<or> l \<in> set (splitlines_keepends (d # ds))"
        using "3.prems" nocrlf by auto
      then show ?thesis
      proof
        assume "l = [c]"
        then have "l = [] @ [c] \<and> (\<forall>x\<in>set []. \<not> is_linebreak x) \<and> (\<forall>x\<in>set [c]. is_linebreak x)"
          using True by simp
        then show ?thesis by blast
      next
        assume "l \<in> set (splitlines_keepends (d # ds))"
        then show ?thesis using "3.IH"(2) nocrlf True by blast
      qed
    next
      case False
      show ?thesis
      proof (cases "splitlines_keepends (d # ds)")
        case Nil
        then have "l = [c]" using "3.prems" nocrlf False by simp
        then have "l = [c] @ [] \<and> (\<forall>x\<in>set [c]. \<not> is_linebreak x) \<and> (\<forall>x\<in>set []. is_linebreak x)"
          using False by simp
        then show ?thesis by blast
      next
        case (Cons l0 ls)
        then have "l = c # l0 \<or> l \<in> set ls" using "3.prems" nocrlf False by auto
        then show ?thesis
        proof
          assume lc: "l = c # l0"
          have "l0 \<in> set (splitlines_keepends (d # ds))" using Cons by simp
          then obtain body ending where be: "l0 = body @ ending" "\<forall>c\<in>set body. \<not> is_linebreak c"
              "\<forall>c\<in>set ending. is_linebreak c"
            using "3.IH"(3) nocrlf False by blast
          then have "l = (c # body) @ ending \<and> (\<forall>x\<in>set (c # body). \<not> is_linebreak x) \<and>
              (\<forall>x\<in>set ending. is_linebreak x)"
            using lc False by simp
          then show ?thesis by blast
        next
          assume "l \<in> set ls"
          then have "l \<in> set (splitlines_keepends (d # ds))" using Cons by simp
          then show ?thesis using "3.IH"(3) nocrlf False by blast
        qed
      qed
    qed
  qed
qed

lemma rstrip_append_space: "\<forall>c\<in>set ending. isspace c \<Longrightarrow> rstrip (body @ ending) = rstrip body"
proof -
  assume a: "\<forall>c\<in>set ending. isspace c"
  then have "dropWhile isspace (rev ending @ rev body) = dropWhile isspace (rev body)"
    by (intro dropWhile_append2) simp
  then show ?thesis by (simp add: rstrip_def)
qed

lemma set_rstrip: "set (rstrip s) \<subseteq> set s"
  unfolding rstrip_def by (metis set_dropWhileD set_rev subsetI)

lemma line_no_newline:
  assumes "l \<in> set (splitlines_keepends t)"
  shows "list_all (accepts AnyChar) (rstrip l)"
proof -
  obtain body ending where be: "l = body @ ending" "\<forall>c\<in>set body. \<not> is_linebreak c"
      "\<forall>c\<in>set ending. is_linebreak c"
    using splitlines_shape [OF assms] by blast
  have "rstrip l = rstrip body" unfolding be(1)
    using be(3) isspace_linebreak by (intro rstrip_append_space) blast
  then have "set (rstrip l) \<subseteq> set body" using set_rstrip by metis
  then have "\<forall>c\<in>set (rstrip l). \<not> is_linebreak c" using be(2) by blast
  moreover have "is_linebreak (CHR 0x0A)" by (simp add: is_linebreak_def)
  ultimately show ?thesis by (auto simp: list_all_iff)
qed

section \<open>The label indexer\<close>

lemma scan_label_line_no_match:
  "re_search label_reg (rstrip raw) = None \<Longrightarrow> scan_label_line filename i raw acc = acc"
  by (simp add: scan_label_line_def)

lemma scan_label_line_match:
  assumes nl: "list_all (accepts AnyChar) (rstrip raw)"
    and m: "re_search label_reg (rstrip raw) \<noteq> None"
  shows "\<exists>lid col. label_at (rstrip raw) lid col \<and>
     (\<forall>i resp labels. scan_label_line filename i raw (resp, labels) =
        (resp @ [CompletionData lid None], labels(lid \<mapsto> (filename, int i + 1, int col))))"
proof -
  obtain mt where mt: "re_search label_reg (rstrip raw) = Some mt" using m by blast
  obtain pre lid post where p: "rstrip raw = pre @ ''label{'' @ lid @ ''}'' @ post"
      "m_start mt = 0" "m_end mt = length (rstrip raw)"
      "m_groups mt 1 = Some (length pre + 6, length pre + 6 + length lid)"
    using label_search_Some [OF nl mt] by blast
  have sub: "re_sub_group label_reg 1 (rstrip raw) = lid"
    using p mt by (intro label_sub [where pre = pre and post = post and m = mt])
  have gs: "group_start mt 1 = int (length pre + 6)"
    using p(4) by (simp add: group_start_def del: One_nat_def)
  have "label_at (rstrip raw) lid (length pre + 6)"
    unfolding label_at_def using p(1) by blast
  moreover have "scan_label_line filename i raw (resp, labels) =
        (resp @ [CompletionData lid None], labels(lid \<mapsto> (filename, int i + 1, int (length pre + 6))))"
    for i resp labels
    unfolding scan_label_line_def Let_def mt sub by (simp add: gs del: One_nat_def)
  ultimately show ?thesis by blast
qed

lemma scan_label_lines_snoc:
  "scan_label_lines filename i (xs @ [raw]) acc =
   scan_label_line filename (i + length xs) raw (scan_label_lines filename i xs acc)"
  by (induction xs arbitrary: i acc) auto

lemma emitted_ok_step:
  assumes ok: "emitted_ok filename lines j acc" and j: "j < length lines"
    and nl: "list_all (accepts AnyChar) (rstrip (lines ! j))"
  shows "emitted_ok filename lines (Suc j) (scan_label_line filename j (lines ! j) acc)"
proof (cases "re_search label_reg (rstrip (lines ! j)) = None")
  case True
  then have "scan_label_line filename j (lines ! j) acc = acc" by (rule scan_label_line_no_match)
  then show ?thesis using ok unfolding emitted_ok_def by (metis less_Suc_eq)
next
  case False
  obtain lid col where l: "label_at (rstrip (lines ! j)) lid col"
    "scan_label_line filename j (lines ! j) (fst acc, snd acc) =
        (fst acc @ [CompletionData lid None], (snd acc)(lid \<mapsto> (filename, int j + 1, int col)))"
    using scan_label_line_match [OF nl False, of filename] by blast
  let ?acc' = "(fst acc @ [CompletionData lid None], (snd acc)(lid \<mapsto> (filename, int j + 1, int col)))"
  have "\<exists>k col'. k < Suc j \<and> c = CompletionData (insertion_text c) None \<and>
         label_at (rstrip (lines ! k)) (insertion_text c) col' \<and>
         snd ?acc' (insertion_text c) = Some (filename, int k + 1, int col')"
    if c: "c \<in> set (fst ?acc')" for c
  proof (cases "insertion_text c = lid")
    case True
    have "c = CompletionData (insertion_text c) None"
      using c ok unfolding emitted_ok_def by auto
    then have "j < Suc j \<and> c = CompletionData (insertion_text c) None \<and>
         label_at (rstrip (lines ! j)) (insertion_text c) col \<and>
         snd ?acc' (insertion_text c) = Some (filename, int j + 1, int col)"
      using True l(1) by simp
    then show ?thesis by blast
  next
    case False
    then have "c \<in> set (fst acc)" using c by auto
    then obtain k col' where "k < j" "c = CompletionData (insertion_text c) None"
         "label_at (rstrip (lines ! k)) (insertion_text c) col'"
         "snd acc (insertion_text c) = Some (filename, int k + 1, int col')"
      using ok unfolding emitted_ok_def by blast
    then have "k < Suc j \<and> c = CompletionData (insertion_text c) None \<and>
         label_at (rstrip (lines ! k)) (insertion_text c) col' \<and>
         snd ?acc' (insertion_text c) = Some (filename, int k + 1, int col')"
      using False by simp
    then show ?thesis by blast
  qed
  then have "emitted_ok filename lines (Suc j) ?acc'" unfolding emitted_ok_def by blast
  then show ?thesis using l(2) by simp
qed

lemma emitted_ok_scan:
  assumes "\<forall>l\<in>set lines. list_all (accepts AnyChar) (rstrip l)" "j \<le> length lines"
  shows "emitted_ok filename lines j (scan_label_lines filename 0 (take j lines) ([], labels))"
  using assms(2)
proof (induction j)
  case 0
  then show ?case by (simp add: emitted_ok_def)
next
  case (Suc j)
  then have j: "j < length lines" by simp
  have t: "take (Suc j) lines = take j lines @ [lines ! j]"
    using j by (rule take_Suc_conv_app_nth)
  have nl: "list_all (accepts AnyChar) (rstrip (lines ! j))" using assms(1) j by simp
  have "emitted_ok filename lines j (scan_label_lines filename 0 (take j lines) ([], labels))"
    using Suc by simp
  then have "emitted_ok filename lines (Suc j)
      (scan_label_line filename j (lines ! j) (scan_label_lines filename 0 (take j lines) ([], labels)))"
    using j nl by (rule emitted_ok_step)
  then show ?case using j by (simp add: t scan_label_lines_snoc)
qed

lemma FindLabels_file_scan:
  assumes "CacheDataAndSkip E st filename = (Inr (False, cache), st1)"
    and "fs_read E filename = ReadOK content"
  shows "FindLabels_file E filename ret st =
     (Inr (ret @ fst (scan_label_lines filename 0 (splitlines_keepends content) ([], goto_labels st1))),
      st1\<lparr>goto_labels := snd (scan_label_lines filename 0 (splitlines_keepends content) ([], goto_labels st1)),
          cached_data := (cached_data st1)(filename \<mapsto>
             fst (scan_label_lines filename 0 (splitlines_keepends content) ([], goto_labels st1)))\<rparr>)"
  using assms by (simp add: FindLabels_file_def split: prod.splits)

lemma CacheDataAndSkip_miss:
  assumes "fs_getmtime E filename = Some mtime"
    and "files st filename = None \<or> (\<exists>t. files st filename = Some t \<and> t < mtime)"
  shows "CacheDataAndSkip E st filename =
           (Inr (False, []), st\<lparr>files := (files st)(filename \<mapsto> mtime)\<rparr>)"
  using assms by (auto simp: CacheDataAndSkip_def)

lemma scan_label_line_shape:
  "scan_label_line filename i raw acc = acc \<or>
   (\<exists>lid loc. scan_label_line filename i raw acc =
      (fst acc @ [CompletionData lid None], (snd acc)(lid \<mapsto> loc)))"
  by (cases "re_search label_reg (rstrip raw)") (auto simp: scan_label_line_def Let_def)

lemma scan_label_lines_keeps:
  assumes "\<forall>lid. lid \<notin> insertion_text ` set (fst acc) \<longrightarrow> snd acc lid = labels0 lid"
  shows "\<forall>lid. lid \<notin> insertion_text ` set (fst (scan_label_lines filename i lines acc)) \<longrightarrow>
           snd (scan_label_lines filename i lines acc) lid = labels0 lid"
  using assms
proof (induction lines arbitrary: i acc)
  case Nil
  then show ?case by simp
next
  case (Cons raw lines)
  have "\<forall>lid. lid \<notin> insertion_text ` set (fst (scan_label_line filename i raw acc)) \<longrightarrow>
           snd (scan_label_line filename i raw acc) lid = labels0 lid"
    using scan_label_line_shape [of filename i raw acc] Cons.prems by auto
  then show ?case using Cons.IH by simp
qed






text \<open>
  Claim C4, as the code has it. A rescan of a file that can be read gives every
  identifier it finds an index entry that names this file, with the line and column of
  a definition in the file's current content, and leaves every other entry as it was:
  no entry is ever removed, so an identifier whose definition was deleted from the file
  stays in the index, attributed to the file.
\<close>

theorem rescan_adds_never_removes:
  assumes "fs_getmtime E filename = Some mtime"
    and "files st filename = None \<or> (\<exists>t. files st filename = Some t \<and> t < mtime)"
    and "fs_read E filename = ReadOK content"
  shows "\<exists>resp st'. FindLabels_file E filename ret st = (Inr (ret @ resp), st') \<and>
           (\<forall>c\<in>set resp. \<exists>k col. k < length (splitlines_keepends content) \<and>
               label_at (rstrip (splitlines_keepends content ! k)) (insertion_text c) col \<and>
               goto_labels st' (insertion_text c) = Some (filename, int k + 1, int col)) \<and>
           (\<forall>lid. lid \<notin> insertion_text ` set resp \<longrightarrow> goto_labels st' lid = goto_labels st lid)"
proof -
  let ?st1 = "st\<lparr>files := (files st)(filename \<mapsto> mtime)\<rparr>"
  let ?lines = "splitlines_keepends content"
  let ?res = "scan_label_lines filename 0 ?lines ([], goto_labels ?st1)"
  let ?st' = "?st1\<lparr>goto_labels := snd ?res, cached_data := (cached_data ?st1)(filename \<mapsto> fst ?res)\<rparr>"
  have miss: "CacheDataAndSkip E st filename = (Inr (False, []), ?st1)"
    using assms(1,2) by (rule CacheDataAndSkip_miss)
  have f: "FindLabels_file E filename ret st = (Inr (ret @ fst ?res), ?st')"
    using FindLabels_file_scan [OF miss assms(3)] by simp
  have "emitted_ok filename ?lines (length ?lines)
      (scan_label_lines filename 0 (take (length ?lines) ?lines) ([], goto_labels ?st1))"
    using line_no_newline by (intro emitted_ok_scan) blast+
  then have "emitted_ok filename ?lines (length ?lines) ?res" by simp
  then have a: "\<forall>c\<in>set (fst ?res). \<exists>k col. k < length ?lines \<and>
               label_at (rstrip (?lines ! k)) (insertion_text c) col \<and>
               goto_labels ?st' (insertion_text c) = Some (filename, int k + 1, int col)"
    unfolding emitted_ok_def by (auto; blast)
  have "\<forall>lid. lid \<notin> insertion_text ` set (fst ?res) \<longrightarrow> snd ?res lid = goto_labels st lid"
    using scan_label_lines_keeps [of "([], goto_labels ?st1)" "goto_labels st" filename 0 ?lines]
    by simp
  then have b: "\<forall>lid. lid \<notin> insertion_text ` set (fst ?res) \<longrightarrow> goto_labels ?st' lid = goto_labels st lid"
    by simp
  show ?thesis using f a b by blast
qed

theorem rescan_adds_never_removes_witness:
  "\<exists>resp. fst (FindLabels_file two_files_edited ''/p/a.tex'' [] scanned) = Inr resp \<and>
     (\<forall>c\<in>set resp. \<exists>k col. k < length (splitlines_keepends ((CHR 0x5C # ''label{other}'') @ [CHR 0x0A])) \<and>
        label_at (rstrip (splitlines_keepends ((CHR 0x5C # ''label{other}'') @ [CHR 0x0A]) ! k)) (insertion_text c) col \<and>
        goto_labels (snd (FindLabels_file two_files_edited ''/p/a.tex'' [] scanned)) (insertion_text c)
          = Some (''/p/a.tex'', int k + 1, int col)) \<and>
     goto_labels (snd (FindLabels_file two_files_edited ''/p/a.tex'' [] scanned)) ''fig1''
       = goto_labels scanned ''fig1''"
proof -
  have m: "fs_getmtime two_files_edited ''/p/a.tex'' = Some 11" by (simp add: two_files_edited_def)
  have "files scanned ''/p/a.tex'' = Some 10" by code_simp
  then have f: "files scanned ''/p/a.tex'' = None \<or> (\<exists>t. files scanned ''/p/a.tex'' = Some t \<and> t < 11)"
    by simp
  have r: "fs_read two_files_edited ''/p/a.tex'' = ReadOK ((CHR 0x5C # ''label{other}'') @ [CHR 0x0A])"
    by (simp add: two_files_edited_def)
  from rescan_adds_never_removes [OF m f r, of "[]"]
  obtain resp st' where s: "FindLabels_file two_files_edited ''/p/a.tex'' [] scanned = (Inr ([] @ resp), st')"
    "\<forall>c\<in>set resp. \<exists>k col. k < length (splitlines_keepends ((CHR 0x5C # ''label{other}'') @ [CHR 0x0A])) \<and>
        label_at (rstrip (splitlines_keepends ((CHR 0x5C # ''label{other}'') @ [CHR 0x0A]) ! k)) (insertion_text c) col \<and>
        goto_labels st' (insertion_text c) = Some (''/p/a.tex'', int k + 1, int col)"
    "\<forall>lid. lid \<notin> insertion_text ` set resp \<longrightarrow> goto_labels st' lid = goto_labels scanned lid"
    by blast
  have "fst (FindLabels_file two_files_edited ''/p/a.tex'' [] scanned) = Inr [CompletionData ''other'' None]"
    by code_simp
  then have "resp = [CompletionData ''other'' None]" using s(1) by simp
  then have "''fig1'' \<notin> insertion_text ` set resp" by simp
  then have "goto_labels st' ''fig1'' = goto_labels scanned ''fig1''" using s(3) by blast
  then show ?thesis using s(1,2) by auto
qed

text \<open>
  The claim as stated fails: \<open>/p/a.tex\<close> defined \<open>old\<close>, was rewritten without it
  and rescanned, and the index still attributes \<open>old\<close> to it.
\<close>

theorem removed_label_stays_indexed:
  "goto_labels scanned ''old'' = Some (''/p/a.tex'', 1, 7) \<and>
   fs_read two_files_edited ''/p/a.tex'' = ReadOK ((CHR 0x5C # ''label{other}'') @ [CHR 0x0A]) \<and>
   fst (FindLabels_file two_files_edited ''/p/a.tex'' [] scanned) = Inr [CompletionData ''other'' None] \<and>
   goto_labels (snd (FindLabels_file two_files_edited ''/p/a.tex'' [] scanned)) ''other''
     = Some (''/p/a.tex'', 1, 7) \<and>
   goto_labels (snd (FindLabels_file two_files_edited ''/p/a.tex'' [] scanned)) ''old''
     = Some (''/p/a.tex'', 1, 7)"
  by code_simp

section \<open>The cache\<close>



text \<open>
  Claim C3, as the code has it. The recorded time and the cached candidates of a file
  are written at two moments: the time when the cache is consulted, the candidates when
  the scan of the file has ended. A scan that ends leaves both replaced, the time by the
  current one and the candidates by those of this scan; a scan that raises leaves the
  new time together with the candidates the cache held before.
\<close>

theorem cache_commit_in_two_steps:
  assumes "fs_getmtime E filename = Some mtime"
    and "files st filename = None \<or> (\<exists>t. files st filename = Some t \<and> t < mtime)"
  shows "(\<forall>content. fs_read E filename = ReadOK content \<longrightarrow>
           (\<exists>st'. FindBibEntriesRegex_file E filename ret st =
                     (Inr (ret @ scan_bib_lines (splitlines_keepends content) []), st') \<and>
                 files st' filename = Some mtime \<and>
                 cached_data st' filename = Some (scan_bib_lines (splitlines_keepends content) []))) \<and>
         (\<forall>content e. fs_read E filename = ReadFail content e \<longrightarrow>
           (\<exists>st'. FindBibEntriesRegex_file E filename ret st = (Inl e, st') \<and>
                 files st' filename = Some mtime \<and>
                 cached_data st' filename = cached_data st filename)) \<and>
         (\<forall>content. fs_read E filename = ReadOK content \<longrightarrow>
           (\<exists>resp st'. FindLabels_file E filename ret st = (Inr (ret @ resp), st') \<and>
                 files st' filename = Some mtime \<and> cached_data st' filename = Some resp)) \<and>
         (\<forall>content e. fs_read E filename = ReadFail content e \<longrightarrow>
           (\<exists>st'. FindLabels_file E filename ret st = (Inl e, st') \<and>
                 files st' filename = Some mtime \<and>
                 cached_data st' filename = cached_data st filename))"
  using CacheDataAndSkip_miss [OF assms]
  by (simp add: FindBibEntriesRegex_file_def FindLabels_file_def Let_def split: prod.splits)

theorem cache_commit_in_two_steps_witness:
  "fst (FindBibEntriesRegex_file two_files ''/p/refs.bib'' [] rooted) = Inr [CompletionData ''key1'' None] \<and>
   files (snd (FindBibEntriesRegex_file two_files ''/p/refs.bib'' [] rooted)) ''/p/refs.bib'' = Some 10 \<and>
   cached_data (snd (FindBibEntriesRegex_file two_files ''/p/refs.bib'' [] rooted)) ''/p/refs.bib''
     = Some [CompletionData ''key1'' None]"
proof -
  have m: "fs_getmtime two_files ''/p/refs.bib'' = Some 10" by (simp add: two_files_def)
  have f: "files rooted ''/p/refs.bib'' = None \<or> (\<exists>t. files rooted ''/p/refs.bib'' = Some t \<and> t < 10)"
    by (simp add: rooted_def init_def)
  have r: "fs_read two_files ''/p/refs.bib'' = ReadOK (''@article{key1,'' @ [CHR 0x0A])"
    by (simp add: two_files_def)
  have s: "scan_bib_lines (splitlines_keepends (''@article{key1,'' @ [CHR 0x0A])) [] = [CompletionData ''key1'' None]"
    by code_simp
  from cache_commit_in_two_steps [OF m f, of "[]"] r
  obtain st' where "FindBibEntriesRegex_file two_files ''/p/refs.bib'' [] rooted =
                     (Inr ([] @ scan_bib_lines (splitlines_keepends (''@article{key1,'' @ [CHR 0x0A])) []), st')"
      "files st' ''/p/refs.bib'' = Some 10"
      "cached_data st' ''/p/refs.bib'' = Some (scan_bib_lines (splitlines_keepends (''@article{key1,'' @ [CHR 0x0A])) [])"
    by blast
  then show ?thesis using s by simp
qed

text \<open>
  The claim as stated fails: after \<open>/p/refs.bib\<close> was touched and could not be
  decoded, the recorded time is the new one, the cached candidates are those of the
  older scan, and the next pass is served them as a hit.
\<close>

theorem stale_cache_after_failed_scan:
  "files scanned ''/p/refs.bib'' = Some 10 \<and>
   cached_data scanned ''/p/refs.bib'' = Some [CompletionData ''key1'' None] \<and>
   fs_getmtime two_files_edited ''/p/refs.bib'' = Some 11 \<and>
   fst (FindBibEntriesRegex_file two_files_edited ''/p/refs.bib'' [] scanned) = Inl UnicodeDecodeError \<and>
   files (snd (FindBibEntriesRegex_file two_files_edited ''/p/refs.bib'' [] scanned)) ''/p/refs.bib'' = Some 11 \<and>
   cached_data (snd (FindBibEntriesRegex_file two_files_edited ''/p/refs.bib'' [] scanned)) ''/p/refs.bib''
     = Some [CompletionData ''key1'' None] \<and>
   fst (FindBibEntriesRegex_file two_files_edited ''/p/refs.bib'' []
          (snd (FindBibEntriesRegex_file two_files_edited ''/p/refs.bib'' [] scanned)))
     = Inr [CompletionData ''key1'' None]"
  by code_simp

section \<open>Root resolution\<close>

lemma FindMain_fields:
  "FindMain E st path what = (r, st') \<Longrightarrow>
   completion_target st' = completion_target st \<and> files st' = files st \<and>
   cached_data st' = cached_data st \<and> d_cache_hits st' = d_cache_hits st \<and>
   goto_labels st' = goto_labels st \<and> stderr st' = stderr st \<and>
   (r = Inl OSError \<and> st' = st \<or> r = Inr False \<and> st' = st \<or>
    r = Inr True \<and> (\<exists>d. st' = st\<lparr>main_directory := Some d\<rparr>))"
proof (induction E st path what rule: FindMain.induct)
  case (1 E st path what)
  show ?case
  proof (cases "listdir E path")
    case None
    then show ?thesis using "1.prems" by (subst (asm) FindMain.simps) auto
  next
    case (Some names)
    show ?thesis
    proof (cases "list_ex (\<lambda>f. endswith f what) names")
      case True
      then show ?thesis using "1.prems" Some by (subst (asm) FindMain.simps) auto
    next
      case False
      show ?thesis
      proof (cases "dirname (normpath path) = path \<or> dirname (normpath path) = []")
        case True
        then show ?thesis using "1.prems" Some False by (subst (asm) FindMain.simps) auto
      next
        case stop: False
        then have "FindMain E st (dirname (normpath path)) what = (r, st')"
          using "1.prems" Some False by (subst (asm) FindMain.simps) (simp add: Let_def)
        then show ?thesis using "1.IH" [OF Some False refl stop] by blast
      qed
    qed
  qed
qed








section \<open>Candidate computation in the idle context\<close>

lemma ComputeMainDirectory_fields:
  "ComputeMainDirectory E st req = (r, st') \<Longrightarrow>
   completion_target st' = completion_target st \<and> files st' = files st \<and>
   cached_data st' = cached_data st \<and> d_cache_hits st' = d_cache_hits st \<and>
   goto_labels st' = goto_labels st \<and> (r = Inl OSError \<and> st' = st \<or> r = Inr ())"
proof -
  assume a: "ComputeMainDirectory E st req = (r, st')"
  obtain r1 st1 where f: "FindMain E st (dirname (filepath req)) ''.bib'' = (r1, st1)"
    by (cases "FindMain E st (dirname (filepath req)) ''.bib''")
  from FindMain_fields [OF f] a f show ?thesis
    by (auto simp: ComputeMainDirectory_def Let_def split: if_splits)
qed

text \<open>
  Claim C9, as the code has it. Candidate computation in the idle context runs neither
  indexer: the recorded times, the cached candidates, the hit counter and the label
  index stay as they are, and the context stays idle. It returns the empty candidate
  list whenever the root is already resolved or its resolution succeeds; when the root
  is not yet resolved and a directory above the document cannot be listed, the
  \<open>OSError\<close> of the resolution is raised instead and the completer is unchanged.
\<close>

theorem idle_computes_nothing:
  assumes "completion_target st = TargetNone"
  shows "(fst (ComputeCandidatesInner E st req) = Inr [] \<or>
          main_directory st = None \<and> fst (ComputeMainDirectory E st req) = Inl OSError \<and>
          ComputeCandidatesInner E st req = (Inl OSError, st)) \<and>
         (main_directory st \<noteq> None \<or> fst (ComputeMainDirectory E st req) = Inr () \<longrightarrow>
            fst (ComputeCandidatesInner E st req) = Inr []) \<and>
         files (snd (ComputeCandidatesInner E st req)) = files st \<and>
         cached_data (snd (ComputeCandidatesInner E st req)) = cached_data st \<and>
         d_cache_hits (snd (ComputeCandidatesInner E st req)) = d_cache_hits st \<and>
         goto_labels (snd (ComputeCandidatesInner E st req)) = goto_labels st \<and>
         completion_target (snd (ComputeCandidatesInner E st req)) = TargetNone"
proof (cases "main_directory st = None")
  case False
  then show ?thesis using assms
    by (auto simp: ComputeCandidatesInner_def find_candidates_def)
next
  case True
  obtain r st1 where c: "ComputeMainDirectory E st req = (r, st1)"
    by (cases "ComputeMainDirectory E st req")
  from ComputeMainDirectory_fields [OF c] show ?thesis
    using True assms c
    by (auto simp: ComputeCandidatesInner_def find_candidates_def)
qed

theorem idle_computes_nothing_witness:
  "completion_target init = TargetNone \<and>
   fst (ComputeCandidatesInner no_bib init ref_request) = Inr [] \<and>
   files (snd (ComputeCandidatesInner no_bib init ref_request)) = files init \<and>
   goto_labels (snd (ComputeCandidatesInner no_bib init ref_request)) = goto_labels init"
proof -
  have t: "completion_target init = TargetNone" by (simp add: init_def)
  have m: "fst (ComputeMainDirectory no_bib init ref_request) = Inr ()" by code_simp
  show ?thesis using idle_computes_nothing [OF t, of no_bib ref_request] m t by simp
qed

text \<open>
  The claim as stated fails: with the directory of the document unlistable, candidate
  computation on a fresh completer raises instead of returning the empty list.
\<close>

theorem idle_root_resolution_raises:
  "completion_target init = TargetNone \<and>
   fst (ComputeCandidatesInner unlistable init ref_request) = Inl OSError"
  by code_simp

section \<open>The classifier\<close>

lemma classify_cases:
  "classify st line =
     (if re_search ref_reg line \<noteq> None
      then (True, st\<lparr>completion_target :=
              (if re_search cite_reg line \<noteq> None \<or> completion_target st = TargetCite
               then TargetAll else TargetLabel)\<rparr>)
      else if re_search cite_reg line \<noteq> None then (True, st\<lparr>completion_target := TargetCite\<rparr>)
      else (False, st))"
  by (simp add: classify_def)

text \<open>
  Claim C1. A line that the cross-reference pattern matches and the citation pattern
  does not should give the context \<open>TargetLabel\<close> whatever the context was, and
  \<open>TargetAll\<close> should need both patterns on one line. The code decides by the retained
  context: after a line with a citation command has set \<open>TargetCite\<close>, a line with
  only a cross-reference command gives \<open>TargetAll\<close>, and the same line classified once
  more gives \<open>TargetLabel\<close>.
\<close>

theorem stale_cite_makes_both:
  "re_search cite_reg (line_value cite_request) \<noteq> None \<and>
   re_search ref_reg (line_value cite_request) = None \<and>
   re_search cite_reg (line_value ref_request) = None \<and>
   re_search ref_reg (line_value ref_request) \<noteq> None \<and>
   completion_target (snd (ShouldUseNowInner no_bib rooted_idle cite_request)) = TargetCite \<and>
   completion_target (snd (ShouldUseNowInner no_bib
     (snd (ShouldUseNowInner no_bib rooted_idle cite_request)) ref_request)) = TargetAll \<and>
   completion_target (snd (ShouldUseNowInner no_bib
     (snd (ShouldUseNowInner no_bib
       (snd (ShouldUseNowInner no_bib rooted_idle cite_request)) ref_request)) ref_request)) = TargetLabel \<and>
   completion_target (snd (ShouldUseNowInner no_bib rooted_idle ref_request)) = TargetLabel"
  by code_simp

end
